theory Spec2Isabelle
  imports Main
begin

section \<open>Python values used by the parser\<close>

text \<open>
  A Python \<^verbatim>\<open>str\<close> is a sequence of Unicode code points; a symbol or a token is the list
  of its code points.  The only exceptions the engine can raise are index errors.
\<close>

type_synonym pystr = "nat list"

datatype error = IndexError

text \<open>
  \<^verbatim>\<open>xs[i]\<close>: a negative index counts from the end, an index outside
  \<^verbatim>\<open>-len(xs) .. len(xs)-1\<close> raises.  \<open>slot\<close> is the position of the list that the index
  denotes.
\<close>

definition slot :: "'a list \<Rightarrow> int \<Rightarrow> nat option" where
  "slot xs i =
     (if 0 \<le> i \<and> i < int (length xs) then Some (nat i)
      else if i < 0 \<and> - int (length xs) \<le> i then Some (nat (int (length xs) + i))
      else None)"

definition getitem :: "'a list \<Rightarrow> int \<Rightarrow> error + 'a" where
  "getitem xs i = (case slot xs i of None \<Rightarrow> Inl IndexError | Some k \<Rightarrow> Inr (xs ! k))"

text \<open>
  \<^verbatim>\<open>c.isupper()\<close> for a one-character string and \<^verbatim>\<open>c.isspace()\<close>.  On ASCII both are
  fixed here; the lower-case Greek gamma (code point 947) of the start rule is not upper
  case; the rest of the Unicode tables is the parameter \<open>U\<close>, respectively \<open>W\<close>.
\<close>

definition isupper :: "(nat \<Rightarrow> bool) \<Rightarrow> nat \<Rightarrow> bool" where
  "isupper U c = (if c < 128 then 65 \<le> c \<and> c \<le> 90 else c \<noteq> 947 \<and> U c)"

definition isspace :: "(nat \<Rightarrow> bool) \<Rightarrow> nat \<Rightarrow> bool" where
  "isspace W c = (if c < 128 then c \<in> {9, 10, 11, 12, 13, 28, 29, 30, 31, 32} else W c)"

text \<open>\<^verbatim>\<open>sentence.strip()\<close> and \<^verbatim>\<open>sentence.split()\<close> (no separator: runs of white space).\<close>

definition strip :: "(nat \<Rightarrow> bool) \<Rightarrow> pystr \<Rightarrow> pystr" where
  "strip W s = rev (dropWhile (isspace W) (rev (dropWhile (isspace W) s)))"

fun split_from :: "(nat \<Rightarrow> bool) \<Rightarrow> pystr \<Rightarrow> pystr \<Rightarrow> pystr list" where
  "split_from W cur [] = (if cur = [] then [] else [cur])"
| "split_from W cur (c # cs) =
     (if isspace W c then (if cur = [] then split_from W [] cs else cur # split_from W [] cs)
      else split_from W (cur @ [c]) cs)"

definition split :: "(nat \<Rightarrow> bool) \<Rightarrow> pystr \<Rightarrow> pystr list" where
  "split W s = split_from W [] s"

section \<open>Rules, states, trees\<close>

datatype rule = Rule (head: pystr) (body: "pystr list")

datatype state =
  State (rule: rule) (dot: int) (start: int) (backpointers: "(int \<times> int) list")

datatype tree = ParseTree (symbol: pystr) (children: "tree list")

type_synonym chart = "state list list"

text \<open>The parser object: its rules and the chart of the last parse.\<close>

record parser =
  rules :: "rule list"
  chart :: chart

definition next_symbol :: "state \<Rightarrow> error + pystr option" where
  "next_symbol st =
     (if dot st < int (length (body (rule st)))
      then (case getitem (body (rule st)) (dot st) of
              Inl e \<Rightarrow> Inl e
            | Inr x \<Rightarrow> Inr (Some x))
      else Inr None)"

definition is_complete :: "state \<Rightarrow> bool" where
  "is_complete st = (dot st \<ge> int (length (body (rule st))))"

text \<open>
  \<^verbatim>\<open>next_symbol and next_symbol[0].isupper()\<close>: \<^verbatim>\<open>None\<close> and the empty string are
  falsy.
\<close>

definition is_nonterminal :: "(nat \<Rightarrow> bool) \<Rightarrow> pystr option \<Rightarrow> bool" where
  "is_nonterminal U ns =
     (case ns of None \<Rightarrow> False | Some [] \<Rightarrow> False | Some (c # cs) \<Rightarrow> isupper U c)"

section \<open>The chart operations\<close>

text \<open>\<^verbatim>\<open>_add_to_chart\<close>: the guard covers positions at or beyond the end of the chart only.\<close>

definition add_to_chart :: "chart \<Rightarrow> state \<Rightarrow> int \<Rightarrow> error + chart" where
  "add_to_chart ch st position =
     (if position \<ge> int (length ch) then Inr ch
      else (case slot ch position of
              None \<Rightarrow> Inl IndexError
            | Some c \<Rightarrow>
                if st \<notin> set (ch ! c) then Inr (ch[c := ch ! c @ [st]]) else Inr ch))"

text \<open>
  The loop of \<^verbatim>\<open>complete\<close> runs over the column object \<^verbatim>\<open>self.chart[state.start]\<close>,
  here the column at slot \<open>c\<close>, with the list iterator's index \<open>k\<close>: when the
  column is also the one appended to, the iterator reaches the appended states too.
\<close>

definition advance :: "state \<Rightarrow> int \<times> int \<Rightarrow> state" where
  "advance s bp = State (rule s) (dot s + 1) (start s) (backpointers s @ [bp])"

definition weight :: "state \<Rightarrow> nat" where
  "weight s = Suc (nat (int (length (body (rule s))) - dot s))"

function complete_loop :: "chart \<Rightarrow> state \<Rightarrow> int \<Rightarrow> nat \<Rightarrow> nat \<Rightarrow> error + chart" where
  "complete_loop ch st position c k =
     (if k < length (ch ! c) then
        (if \<not> is_complete (ch ! c ! k) then
           (case next_symbol (ch ! c ! k) of
              Inl e \<Rightarrow> Inl e
            | Inr ns \<Rightarrow>
                if ns = Some (head (rule st)) then
                  (case add_to_chart ch (advance (ch ! c ! k) (start st, position)) position of
                     Inl e \<Rightarrow> Inl e
                   | Inr ch' \<Rightarrow> complete_loop ch' st position c (Suc k))
                else complete_loop ch st position c (Suc k))
         else complete_loop ch st position c (Suc k))
      else Inr ch)"
  by pat_completeness auto

termination
proof (relation "measure (\<lambda>(ch, st, position, c, k). sum_list (map weight (drop k (ch ! c))))",
    goal_cases)
  case 1
  show ?case by simp
next
  case (2 ch st position c k ns ch')
  let ?s = "ch ! c ! k"
  let ?new = "advance ?s (start st, position)"
  have drop: "drop k (ch ! c) = ?s # drop (Suc k) (ch ! c)"
    using 2(1) by (simp add: Cons_nth_drop_Suc)
  have lt: "weight ?new < weight ?s"
    using 2(2) by (simp add: weight_def advance_def is_complete_def)
  have "ch' ! c = ch ! c \<or> ch' ! c = ch ! c @ [?new]"
  proof (cases "position \<ge> int (length ch)")
    case True
    with 2(5) show ?thesis by (simp add: add_to_chart_def)
  next
    case False
    with 2(5) obtain d where d: "slot ch position = Some d"
      by (auto simp: add_to_chart_def split: option.splits)
    have "d < length ch"
      using d by (auto simp: slot_def split: if_splits)
    with 2(5) False d show ?thesis
      by (cases "c = d") (auto simp: add_to_chart_def split: if_splits)
  qed
  then show ?case
  proof
    assume "ch' ! c = ch ! c"
    then show ?thesis using drop by (simp add: weight_def)
  next
    assume "ch' ! c = ch ! c @ [?new]"
    then show ?thesis using drop lt 2(1) by simp
  qed
next
  case (3 ch st position c k ns)
  then show ?case by (simp add: Cons_nth_drop_Suc [symmetric] weight_def)
next
  case (4 ch st position c k)
  then show ?case by (simp add: Cons_nth_drop_Suc [symmetric] weight_def)
qed

declare complete_loop.simps [simp del]

definition complete :: "chart \<Rightarrow> state \<Rightarrow> int \<Rightarrow> error + chart" where
  "complete ch st position =
     (if \<not> is_complete st then Inr ch
      else (case slot ch (start st) of
              None \<Rightarrow> Inl IndexError
            | Some c \<Rightarrow> complete_loop ch st position c 0))"

text \<open>The loop of \<^verbatim>\<open>predict\<close> over \<^verbatim>\<open>self.rules\<close>, which no operation changes.\<close>

fun predict_loop :: "chart \<Rightarrow> pystr \<Rightarrow> int \<Rightarrow> rule list \<Rightarrow> error + chart" where
  "predict_loop ch nt position [] = Inr ch"
| "predict_loop ch nt position (r # rs) =
     (if head r = nt then
        (case add_to_chart ch (State r 0 position []) position of
           Inl e \<Rightarrow> Inl e
         | Inr ch1 \<Rightarrow>
             if body r = [] then
               (case complete ch1 (State r 0 position []) position of
                  Inl e \<Rightarrow> Inl e
                | Inr ch2 \<Rightarrow> predict_loop ch2 nt position rs)
             else predict_loop ch1 nt position rs)
      else predict_loop ch nt position rs)"

definition predict :: "(nat \<Rightarrow> bool) \<Rightarrow> rule list \<Rightarrow> chart \<Rightarrow> state \<Rightarrow> int \<Rightarrow> error + chart" where
  "predict U rs ch st position =
     (case next_symbol st of
        Inl e \<Rightarrow> Inl e
      | Inr ns \<Rightarrow>
          if is_nonterminal U ns then predict_loop ch (the ns) position rs else Inr ch)"

definition scan :: "chart \<Rightarrow> state \<Rightarrow> int \<Rightarrow> pystr list \<Rightarrow> error + chart" where
  "scan ch st position words =
     (if position < int (length words) then
        (case next_symbol st of
           Inl e \<Rightarrow> Inl e
         | Inr ns \<Rightarrow>
             if ns = None \<or> ns = Some [] then Inr ch
             else (case getitem words position of
                     Inl e \<Rightarrow> Inl e
                   | Inr w \<Rightarrow>
                       if ns = Some w
                       then add_to_chart ch (advance st (position, position + 1)) (position + 1)
                       else Inr ch))
      else Inr ch)"

section \<open>The driving loop\<close>

definition process_state ::
  "(nat \<Rightarrow> bool) \<Rightarrow> rule list \<Rightarrow> pystr list \<Rightarrow> chart \<Rightarrow> nat \<Rightarrow> state \<Rightarrow> error + chart" where
  "process_state U rs words ch i st =
     (if \<not> is_complete st then
        (case next_symbol st of
           Inl e \<Rightarrow> Inl e
         | Inr ns \<Rightarrow>
             if is_nonterminal U ns then predict U rs ch st (int i)
             else scan ch st (int i) words)
      else complete ch st (int i))"

text \<open>
  The work list of column \<open>i\<close>: \<^verbatim>\<open>while j < len(self.chart[i])\<close>.  The loop has no
  bound of its own, so the model is a partial function: \<open>None\<close> is a loop that never ends.
\<close>

partial_function (option) process_column ::
  "(nat \<Rightarrow> bool) \<Rightarrow> rule list \<Rightarrow> pystr list \<Rightarrow> chart \<Rightarrow> nat \<Rightarrow> nat \<Rightarrow> (error + chart) option" where
  "process_column U rs words ch i j =
     (case getitem ch (int i) of
        Inl e \<Rightarrow> Some (Inl e)
      | Inr col \<Rightarrow>
          if j < length col then
            (case process_state U rs words ch i (col ! j) of
               Inl e \<Rightarrow> Some (Inl e)
             | Inr ch' \<Rightarrow> process_column U rs words ch' i (Suc j))
          else Some (Inr ch))"

declare process_column.simps [code]

fun process_columns ::
  "(nat \<Rightarrow> bool) \<Rightarrow> rule list \<Rightarrow> pystr list \<Rightarrow> chart \<Rightarrow> nat list \<Rightarrow> (error + chart) option" where
  "process_columns U rs words ch [] = Some (Inr ch)"
| "process_columns U rs words ch (i # is) =
     (case process_column U rs words ch i 0 of
        None \<Rightarrow> None
      | Some (Inl e) \<Rightarrow> Some (Inl e)
      | Some (Inr ch') \<Rightarrow> process_columns U rs words ch' is)"

definition gamma :: pystr where
  "gamma = [947]"

definition start_rule :: rule where
  "start_rule = Rule gamma [[83]]"

text \<open>The chart of a parse: the fresh columns, the initial state, then the columns in order.\<close>

definition build_chart :: "(nat \<Rightarrow> bool) \<Rightarrow> rule list \<Rightarrow> pystr list \<Rightarrow> (error + chart) option" where
  "build_chart U rs words =
     (case add_to_chart (replicate (length words + 1) []) (State start_rule 0 0 []) 0 of
        Inl e \<Rightarrow> Some (Inl e)
      | Inr ch \<Rightarrow> process_columns U rs words ch [0 ..< length words + 1])"

section \<open>Tree building\<close>

text \<open>
  \<^verbatim>\<open>_build_tree\<close> recurses into the states that the backpointers lead to; \<open>depth\<close> bounds
  the nesting of these calls, and \<open>None\<close> says that the bound was reached.  The loop over
  \<^verbatim>\<open>enumerate(state.rule.body)\<close> is \<open>build_children\<close>, with the recursive call as \<open>rec\<close>.
  A nonterminal for which the column holds no matching state adds no child.
\<close>

definition matches :: "pystr \<Rightarrow> int \<Rightarrow> state \<Rightarrow> bool" where
  "matches symb start_pos s = (is_complete s \<and> head (rule s) = symb \<and> start s = start_pos)"

fun build_children ::
  "(nat \<Rightarrow> bool) \<Rightarrow> (state \<Rightarrow> int \<Rightarrow> (error + tree) option) \<Rightarrow> chart \<Rightarrow> state \<Rightarrow> pystr list \<Rightarrow>
     (nat \<times> pystr) list \<Rightarrow> tree list \<Rightarrow> (error + tree list) option" where
  "build_children U rec ch st words [] cs = Some (Inr cs)"
| "build_children U rec ch st words ((i, symb) # rest) cs =
     (case getitem (backpointers st) (int i) of
        Inl e \<Rightarrow> Some (Inl e)
      | Inr (start_pos, end_pos) \<Rightarrow>
          (case symb of
             [] \<Rightarrow> Some (Inl IndexError)
           | c # _ \<Rightarrow>
               if isupper U c then
                 (case getitem ch end_pos of
                    Inl e \<Rightarrow> Some (Inl e)
                  | Inr col \<Rightarrow>
                      (case find (matches symb start_pos) col of
                         None \<Rightarrow> build_children U rec ch st words rest cs
                       | Some s \<Rightarrow>
                           (case rec s end_pos of
                              None \<Rightarrow> None
                            | Some (Inl e) \<Rightarrow> Some (Inl e)
                            | Some (Inr t) \<Rightarrow> build_children U rec ch st words rest (cs @ [t]))))
               else
                 (case getitem words start_pos of
                    Inl e \<Rightarrow> Some (Inl e)
                  | Inr w \<Rightarrow> build_children U rec ch st words rest (cs @ [ParseTree w []]))))"

fun build_tree ::
  "(nat \<Rightarrow> bool) \<Rightarrow> nat \<Rightarrow> chart \<Rightarrow> pystr list \<Rightarrow> state \<Rightarrow> int \<Rightarrow> (error + tree) option" where
  "build_tree U 0 ch words st pos = None"
| "build_tree U (Suc depth) ch words st pos =
     (if body (rule st) = [] then Some (Inr (ParseTree (head (rule st)) []))
      else
        (case build_children U (build_tree U depth ch words) ch st words
                (enumerate 0 (body (rule st))) [] of
           None \<Rightarrow> None
         | Some (Inl e) \<Rightarrow> Some (Inl e)
         | Some (Inr cs) \<Rightarrow> Some (Inr (ParseTree (head (rule st)) cs))))"

section \<open>parse\<close>

definition accepting :: "state \<Rightarrow> bool" where
  "accepting st = (head (rule st) = gamma \<and> is_complete st \<and> start st = 0)"

definition s_state :: "state \<Rightarrow> bool" where
  "s_state s = (is_complete s \<and> head (rule s) = [83] \<and> start s = 0 \<and> length (backpointers s) > 0)"

text \<open>The last part of \<^verbatim>\<open>parse\<close>: the acceptance test and the choice of the tree.\<close>

definition result ::
  "(nat \<Rightarrow> bool) \<Rightarrow> nat \<Rightarrow> chart \<Rightarrow> pystr list \<Rightarrow> (error + bool \<times> tree option) option" where
  "result U depth ch words =
     (case getitem ch (int (length words)) of
        Inl e \<Rightarrow> Some (Inl e)
      | Inr col \<Rightarrow>
          (case find accepting col of
             None \<Rightarrow> Some (Inr (False, None))
           | Some _ \<Rightarrow>
               (case find s_state col of
                  None \<Rightarrow> Some (Inr (True, None))
                | Some s \<Rightarrow>
                    (case build_tree U depth ch words s (int (length words)) of
                       None \<Rightarrow> None
                     | Some (Inl e) \<Rightarrow> Some (Inl e)
                     | Some (Inr t) \<Rightarrow> Some (Inr (True, Some t))))))"

definition tokens :: "(nat \<Rightarrow> bool) \<Rightarrow> pystr \<Rightarrow> pystr list" where
  "tokens W sentence = (if strip W sentence \<noteq> [] then split W sentence else [])"

text \<open>
  \<^verbatim>\<open>parse\<close> replaces the chart of the parser object and returns the pair of the
  acceptance flag and the tree; the parser object after the call is the second component.
\<close>

definition parse ::
  "(nat \<Rightarrow> bool) \<Rightarrow> (nat \<Rightarrow> bool) \<Rightarrow> nat \<Rightarrow> parser \<Rightarrow> pystr \<Rightarrow>
     (error + (bool \<times> tree option) \<times> parser) option" where
  "parse U W depth p sentence =
     (case build_chart U (rules p) (tokens W sentence) of
        None \<Rightarrow> None
      | Some (Inl e) \<Rightarrow> Some (Inl e)
      | Some (Inr ch) \<Rightarrow>
          (case result U depth ch (tokens W sentence) of
             None \<Rightarrow> None
           | Some (Inl e) \<Rightarrow> Some (Inl e)
           | Some (Inr r) \<Rightarrow> Some (Inr (r, p\<lparr>chart := ch\<rparr>))))"

section \<open>Notions for stating the properties\<close>

text \<open>
  The leaves of a tree are its nodes without children, from left to right.  A node without
  children is either a token (\<^verbatim>\<open>ParseTree(words[start_pos])\<close>) or the node of a rule with
  an empty body; the second kind carries the head of the rule, a nonterminal.
\<close>

fun leaves :: "tree \<Rightarrow> pystr list" where
  "leaves (ParseTree s cs) = (if cs = [] then [s] else concat (map leaves cs))"

definition terminal_leaves :: "(nat \<Rightarrow> bool) \<Rightarrow> tree \<Rightarrow> pystr list" where
  "terminal_leaves U t = filter (\<lambda>s. \<not> is_nonterminal U (Some s)) (leaves t)"

text \<open>The tokens from position \<open>a\<close> up to, not including, position \<open>b\<close>.\<close>

definition span :: "pystr list \<Rightarrow> int \<Rightarrow> int \<Rightarrow> pystr list" where
  "span words a b = take (nat (b - a)) (drop (nat a) words)"

text \<open>No column holds a state twice.\<close>

definition columns_distinct :: "chart \<Rightarrow> bool" where
  "columns_distinct ch = (\<forall>col \<in> set ch. distinct col)"

text \<open>
  A state lies in the column that its backpointers end in: one backpointer for each symbol
  before the dot, the start column when the dot is at 0, else the end of the last span.
\<close>

definition placed :: "nat \<Rightarrow> state \<Rightarrow> bool" where
  "placed e s =
     (int (length (backpointers s)) = dot s
      \<and> (dot s = 0 \<longrightarrow> start s = int e)
      \<and> (dot s > 0 \<longrightarrow> snd (last (backpointers s)) = int e))"

definition all_placed :: "chart \<Rightarrow> bool" where
  "all_placed ch = (\<forall>e < length ch. \<forall>s \<in> set (ch ! e). placed e s)"

text \<open>A chart grows: the columns stay in number and each keeps its states as a prefix.\<close>

definition grows :: "chart \<Rightarrow> chart \<Rightarrow> bool" where
  "grows ch ch' = (length ch' = length ch \<and> (\<forall>e < length ch. \<exists>ys. ch' ! e = ch ! e @ ys))"

text \<open>
  The spans of a state lead from its start column to the column it lies in, each beginning
  where the one before ends.
\<close>

fun chain :: "int \<Rightarrow> (int \<times> int) list \<Rightarrow> int \<Rightarrow> bool" where
  "chain a [] e = (a = e)"
| "chain a (bp # bs) e = (fst bp = a \<and> a \<le> snd bp \<and> chain (snd bp) bs e)"

text \<open>
  The state that a nonterminal's span points to: a matching state in the column of the
  span's end, stored before the place \<open>(e, j)\<close> of the state that points to it.
\<close>

definition found_before :: "chart \<Rightarrow> nat \<Rightarrow> nat \<Rightarrow> pystr \<Rightarrow> int \<times> int \<Rightarrow> bool" where
  "found_before ch e j symb bp =
     (0 \<le> snd bp \<and> nat (snd bp) \<le> e
      \<and> (\<exists>j' < length (ch ! nat (snd bp)).
            matches symb (fst bp) (ch ! nat (snd bp) ! j') \<and> (nat (snd bp) < e \<or> j' < j)))"

definition child_ok ::
  "(nat \<Rightarrow> bool) \<Rightarrow> pystr list \<Rightarrow> chart \<Rightarrow> nat \<Rightarrow> nat \<Rightarrow> pystr \<Rightarrow> int \<times> int \<Rightarrow> bool" where
  "child_ok U words ch e j symb bp =
     (if is_nonterminal U (Some symb) then found_before ch e j symb bp
      else symb = gamma
        \<or> (symb \<noteq> [] \<and> snd bp = fst bp + 1 \<and> fst bp < int (length words)
            \<and> words ! nat (fst bp) = symb))"

definition ok_state ::
  "(nat \<Rightarrow> bool) \<Rightarrow> rule list \<Rightarrow> pystr list \<Rightarrow> chart \<Rightarrow> nat \<Rightarrow> nat \<Rightarrow> state \<Rightarrow> bool" where
  "ok_state U rs words ch e j s =
     ((rule s = start_rule \<or> (rule s \<in> set rs \<and> is_nonterminal U (Some (head (rule s)))))
      \<and> dot s \<le> int (length (body (rule s)))
      \<and> int (length (backpointers s)) = dot s
      \<and> 0 \<le> start s
      \<and> chain (start s) (backpointers s) (int e)
      \<and> (\<forall>k < length (backpointers s).
            child_ok U words ch e j (body (rule s) ! k) (backpointers s ! k)))"

definition inv :: "(nat \<Rightarrow> bool) \<Rightarrow> rule list \<Rightarrow> pystr list \<Rightarrow> chart \<Rightarrow> bool" where
  "inv U rs words ch =
     (length ch = length words + 1
      \<and> (\<forall>e < length ch. \<forall>j < length (ch ! e). ok_state U rs words ch e j (ch ! e ! j)))"

text \<open>The states that a column of a parse of \<open>n\<close> tokens can hold.\<close>

definition universe :: "rule list \<Rightarrow> nat \<Rightarrow> state set" where
  "universe rs n =
     {s. rule s \<in> set (start_rule # rs)
       \<and> 0 \<le> dot s \<and> dot s \<le> int (length (body (rule s)))
       \<and> 0 \<le> start s \<and> start s \<le> int n
       \<and> int (length (backpointers s)) = dot s
       \<and> set (backpointers s) \<subseteq> {0 .. int n} \<times> {0 .. int n}}"

text \<open>The number of states of a chart, and the place of a state counted through the columns.\<close>

definition chart_size :: "chart \<Rightarrow> nat" where
  "chart_size ch = sum_list (map length ch)"

definition rank :: "chart \<Rightarrow> nat \<Rightarrow> nat \<Rightarrow> nat" where
  "rank ch e j = sum_list (map length (take e ch)) + j"

text \<open>The reserved symbol of the start rule occurs in no rule body.\<close>

definition gamma_free :: "rule list \<Rightarrow> bool" where
  "gamma_free rs = (\<forall>r \<in> set rs. gamma \<notin> set (body r))"

section \<open>The parser without the immediate completion in predict\<close>

text \<open>
  These definitions are not the source: they are \<^verbatim>\<open>predict\<close> with the two lines
  \<^verbatim>\<open>if not rule.body: self.complete(new_state, position)\<close> left out, and the driving
  loop, the chart and \<^verbatim>\<open>parse\<close> over it, all else as above.  They serve to say what a
  result of the parser depends on.
\<close>

fun predict_loop_plain :: "chart \<Rightarrow> pystr \<Rightarrow> int \<Rightarrow> rule list \<Rightarrow> error + chart" where
  "predict_loop_plain ch nt position [] = Inr ch"
| "predict_loop_plain ch nt position (r # rs) =
     (if head r = nt then
        (case add_to_chart ch (State r 0 position []) position of
           Inl e \<Rightarrow> Inl e
         | Inr ch1 \<Rightarrow> predict_loop_plain ch1 nt position rs)
      else predict_loop_plain ch nt position rs)"

definition predict_plain ::
  "(nat \<Rightarrow> bool) \<Rightarrow> rule list \<Rightarrow> chart \<Rightarrow> state \<Rightarrow> int \<Rightarrow> error + chart" where
  "predict_plain U rs ch st position =
     (case next_symbol st of
        Inl e \<Rightarrow> Inl e
      | Inr ns \<Rightarrow>
          if is_nonterminal U ns then predict_loop_plain ch (the ns) position rs else Inr ch)"

definition process_state_plain ::
  "(nat \<Rightarrow> bool) \<Rightarrow> rule list \<Rightarrow> pystr list \<Rightarrow> chart \<Rightarrow> nat \<Rightarrow> state \<Rightarrow> error + chart" where
  "process_state_plain U rs words ch i st =
     (if \<not> is_complete st then
        (case next_symbol st of
           Inl e \<Rightarrow> Inl e
         | Inr ns \<Rightarrow>
             if is_nonterminal U ns then predict_plain U rs ch st (int i)
             else scan ch st (int i) words)
      else complete ch st (int i))"

partial_function (option) process_column_plain ::
  "(nat \<Rightarrow> bool) \<Rightarrow> rule list \<Rightarrow> pystr list \<Rightarrow> chart \<Rightarrow> nat \<Rightarrow> nat \<Rightarrow> (error + chart) option" where
  "process_column_plain U rs words ch i j =
     (case getitem ch (int i) of
        Inl e \<Rightarrow> Some (Inl e)
      | Inr col \<Rightarrow>
          if j < length col then
            (case process_state_plain U rs words ch i (col ! j) of
               Inl e \<Rightarrow> Some (Inl e)
             | Inr ch' \<Rightarrow> process_column_plain U rs words ch' i (Suc j))
          else Some (Inr ch))"

declare process_column_plain.simps [code]

fun process_columns_plain ::
  "(nat \<Rightarrow> bool) \<Rightarrow> rule list \<Rightarrow> pystr list \<Rightarrow> chart \<Rightarrow> nat list \<Rightarrow> (error + chart) option" where
  "process_columns_plain U rs words ch [] = Some (Inr ch)"
| "process_columns_plain U rs words ch (i # is) =
     (case process_column_plain U rs words ch i 0 of
        None \<Rightarrow> None
      | Some (Inl e) \<Rightarrow> Some (Inl e)
      | Some (Inr ch') \<Rightarrow> process_columns_plain U rs words ch' is)"

definition build_chart_plain ::
  "(nat \<Rightarrow> bool) \<Rightarrow> rule list \<Rightarrow> pystr list \<Rightarrow> (error + chart) option" where
  "build_chart_plain U rs words =
     (case add_to_chart (replicate (length words + 1) []) (State start_rule 0 0 []) 0 of
        Inl e \<Rightarrow> Some (Inl e)
      | Inr ch \<Rightarrow> process_columns_plain U rs words ch [0 ..< length words + 1])"

definition parse_plain ::
  "(nat \<Rightarrow> bool) \<Rightarrow> (nat \<Rightarrow> bool) \<Rightarrow> nat \<Rightarrow> parser \<Rightarrow> pystr \<Rightarrow>
     (error + (bool \<times> tree option) \<times> parser) option" where
  "parse_plain U W depth p sentence =
     (case build_chart_plain U (rules p) (tokens W sentence) of
        None \<Rightarrow> None
      | Some (Inl e) \<Rightarrow> Some (Inl e)
      | Some (Inr ch) \<Rightarrow>
          (case result U depth ch (tokens W sentence) of
             None \<Rightarrow> None
           | Some (Inl e) \<Rightarrow> Some (Inl e)
           | Some (Inr r) \<Rightarrow> Some (Inr (r, p\<lparr>chart := ch\<rparr>))))"

section \<open>Properties\<close>

lemmas run_simps =
  parse_def tokens_def strip_def split_def isspace_def build_chart_def add_to_chart_def slot_def
  process_column.simps process_state_def is_complete_def next_symbol_def getitem_def
  start_rule_def is_nonterminal_def isupper_def predict_def complete_def complete_loop.simps
  advance_def gamma_def scan_def result_def accepting_def s_state_def matches_def
  upt_rec [of _ "Suc _"]

subsection \<open>The guard of complete\<close>

text \<open>
  C10: for a state that is not complete (its dot is strictly less than the length of the
  rule body) and any position, \<^verbatim>\<open>complete\<close> returns the chart as it was: the guard
  returns before the loop and before any insertion.
\<close>

theorem complete_incomplete_unchanged:
  "dot st < int (length (body (rule st))) \<Longrightarrow> complete ch st i = Inr ch"
  by (simp add: complete_def is_complete_def)

theorem complete_incomplete_unchanged_witness:
  "dot (State (Rule [83] [[97]]) 0 0 []) < int (length (body (rule (State (Rule [83] [[97]]) 0 0 []))))
   \<and> complete [[State (Rule [83] [[97]]) 0 0 []], []] (State (Rule [83] [[97]]) 0 0 []) 1
       = Inr [[State (Rule [83] [[97]]) 0 0 []], []]"
  using complete_incomplete_unchanged [of "State (Rule [83] [[97]]) 0 0 []"
      "[[State (Rule [83] [[97]]) 0 0 []], []]" 1]
  by simp

subsection \<open>Positions outside the chart\<close>

text \<open>
  C8: an out-of-range position should leave the chart alone and raise nothing.  The guard of
  \<^verbatim>\<open>_add_to_chart\<close> tests \<^verbatim>\<open>position >= len(self.chart)\<close> only: in a chart of two
  columns the position -1 is not a column index, yet the state is appended to the last
  column, and the position -3 raises an index error.
\<close>

theorem add_to_chart_negative_position:
  "add_to_chart [[], []] (State (Rule [83] [[97]]) 0 0 []) (- 1)
     = Inr [[], [State (Rule [83] [[97]]) 0 0 []]]
   \<and> add_to_chart [[], []] (State (Rule [83] [[97]]) 0 0 []) (- 3) = Inl IndexError"
  by (simp add: add_to_chart_def slot_def)

text \<open>At or beyond the end of the chart the guard makes the insertion a no-op.\<close>

lemma add_to_chart_beyond: "int (length ch) \<le> position \<Longrightarrow> add_to_chart ch st position = Inr ch"
  by (simp add: add_to_chart_def)

subsection \<open>A nonterminal without a matching state\<close>

lemma build_children_length:
  "build_children U rec ch st words xs cs = Some (Inr cs') \<Longrightarrow> length cs' \<le> length cs + length xs"
proof (induction xs arbitrary: cs)
  case Nil
  then show ?case by simp
next
  case (Cons x xs)
  obtain i symb where x: "x = (i, symb)" by (cases x)
  from Cons.prems obtain cs1 where
    "build_children U rec ch st words xs cs1 = Some (Inr cs')" "length cs1 \<le> Suc (length cs)"
    unfolding x
    by (auto split: sum.splits prod.splits list.splits if_splits option.splits)
  with Cons.IH [of cs1] show ?case by simp
qed

lemma build_children_skip:
  assumes "getitem (backpointers st) (int i) = Inr (a, b)" "isupper U c"
    "getitem ch b = Inr col" "find (matches (c # r) a) col = None"
  shows "build_children U rec ch st words ((i, c # r) # rest) cs
     = build_children U rec ch st words rest cs"
  using assms by simp

lemma build_children_missing:
  assumes "build_children U rec ch st words xs cs = Some (Inr cs')"
    "(i, c # r) \<in> set xs"
    "getitem (backpointers st) (int i) = Inr (a, b)" "isupper U c"
    "getitem ch b = Inr col" "find (matches (c # r) a) col = None"
  shows "length cs' < length cs + length xs"
  using assms(1,2)
proof (induction xs arbitrary: cs)
  case Nil
  then show ?case by simp
next
  case (Cons x xs)
  show ?case
  proof (cases "x = (i, c # r)")
    case True
    with Cons.prems(1) have "build_children U rec ch st words xs cs = Some (Inr cs')"
      using build_children_skip [OF assms(3-6)] by simp
    from build_children_length [OF this] show ?thesis by simp
  next
    case False
    with Cons.prems(2) have mem: "(i, c # r) \<in> set xs" by simp
    obtain i' symb where x: "x = (i', symb)" by (cases x)
    from Cons.prems(1) obtain cs1 where
      "build_children U rec ch st words xs cs1 = Some (Inr cs')" "length cs1 \<le> Suc (length cs)"
      unfolding x
      by (auto split: sum.splits prod.splits list.splits if_splits option.splits)
    with Cons.IH [OF _ mem, of cs1] show ?thesis by simp
  qed
qed

text \<open>
  C9, as the code has it: when the column \<open>end\<close> holds no complete state with the head
  and the start of a nonterminal body symbol, the loop over the body goes on with the next
  symbol and adds no child; nothing is raised for it, and a tree that \<^verbatim>\<open>_build_tree\<close>
  returns for the state has fewer children than the body has symbols.
\<close>

theorem build_tree_missing_child:
  assumes "k < length (body (rule st))" "body (rule st) ! k = c # r" "isupper U c"
    "getitem (backpointers st) (int k) = Inr (a, b)"
    "getitem ch b = Inr col" "find (matches (c # r) a) col = None"
  shows "build_children U rec ch st words ((k, c # r) # rest) cs
           = build_children U rec ch st words rest cs
         \<and> (build_tree U depth ch words st pos = Some (Inr t) \<longrightarrow>
              symbol t = head (rule st) \<and> length (children t) < length (body (rule st)))"
proof
  show "build_children U rec ch st words ((k, c # r) # rest) cs
           = build_children U rec ch st words rest cs"
    using build_children_skip [OF assms(4,3,5,6)] .
  show "build_tree U depth ch words st pos = Some (Inr t) \<longrightarrow>
              symbol t = head (rule st) \<and> length (children t) < length (body (rule st))"
  proof
    assume t: "build_tree U depth ch words st pos = Some (Inr t)"
    then obtain d where d: "depth = Suc d" by (cases depth) auto
    from assms(1) have ne: "body (rule st) \<noteq> []" by auto
    from t ne obtain cs where
      cs: "build_children U (build_tree U d ch words) ch st words
             (enumerate 0 (body (rule st))) [] = Some (Inr cs)"
      and tt: "t = ParseTree (head (rule st)) cs"
      unfolding d by (auto split: option.splits sum.splits)
    have "(k, c # r) \<in> set (enumerate 0 (body (rule st)))"
      using assms(1,2) by (auto simp: in_set_enumerate_eq)
    from build_children_missing [OF cs this assms(4,3,5,6)]
    show "symbol t = head (rule st) \<and> length (children t) < length (body (rule st))"
      by (simp add: tt)
  qed
qed

theorem build_tree_missing_child_witness:
  "build_tree (\<lambda>_. False) 1 [[]] [] (State (Rule [83] [[65]]) 1 0 [(0, 0)]) 0
     = Some (Inr (ParseTree [83] []))
   \<and> symbol (ParseTree [83] []) = head (rule (State (Rule [83] [[65]]) 1 0 [(0, 0)]))
   \<and> length (children (ParseTree [83] [])) < length (body (rule (State (Rule [83] [[65]]) 1 0 [(0, 0)])))"
proof -
  let ?st = "State (Rule [83] [[65]]) 1 0 [(0, 0)]"
  have run: "build_tree (\<lambda>_. False) 1 [[]] [] ?st 0 = Some (Inr (ParseTree [83] []))"
    by (simp add: run_simps)
  have "build_tree (\<lambda>_. False) 1 [[]] [] ?st 0 = Some (Inr (ParseTree [83] [])) \<longrightarrow>
      symbol (ParseTree [83] []) = head (rule ?st)
      \<and> length (children (ParseTree [83] [])) < length (body (rule ?st))"
    using build_tree_missing_child [where k = 0 and st = ?st and c = 65 and r = "[]"
        and U = "\<lambda>_. False" and a = 0 and b = 0 and ch = "[[]]" and col = "[]" and depth = 1
        and words = "[]" and pos = 0 and t = "ParseTree [83] []"]
    by (simp add: getitem_def slot_def isupper_def)
  with run show ?thesis by blast
qed

theorem build_tree_missing_child_counterexample:
  "find (matches [65] 0) ([[]] ! 0) = None
   \<and> build_tree (\<lambda>_. False) 1 [[]] [] (State (Rule [83] [[65]]) 1 0 [(0, 0)]) 0
       = Some (Inr (ParseTree [83] []))"
  by (simp add: run_simps)

subsection \<open>The epsilon example\<close>

text \<open>
  C6: with the rules \<open>S \<rightarrow> A x\<close> and \<open>A \<rightarrow> \<epsilon>\<close>, the sentence \<open>x\<close> is accepted with the
  tree \<open>S(A(), x)\<close>, whatever chart the parser held before; and \<^verbatim>\<open>predict\<close> on the state
  \<open>S \<rightarrow> \<bullet> A x\<close> adds the state of the empty rule and, completing it at once, the state
  \<open>S \<rightarrow> A \<bullet> x\<close> with the span (0, 0).
\<close>

theorem parse_epsilon_example:
  "parse U W (Suc (Suc n)) \<lparr>rules = [Rule [83] [[65], [120]], Rule [65] []], chart = c\<rparr> [120]
     = Some (Inr ((True, Some (ParseTree [83] [ParseTree [65] [], ParseTree [120] []])),
          \<lparr>rules = [Rule [83] [[65], [120]], Rule [65] []],
             chart =
               [[State start_rule 0 0 [],
                 State (Rule [83] [[65], [120]]) 0 0 [],
                 State (Rule [65] []) 0 0 [],
                 State (Rule [83] [[65], [120]]) 1 0 [(0, 0)]],
                [State (Rule [83] [[65], [120]]) 2 0 [(0, 0), (0, 1)],
                 State start_rule 1 0 [(0, 1)]]]\<rparr>))
   \<and> predict U [Rule [83] [[65], [120]], Rule [65] []]
        [[State start_rule 0 0 [], State (Rule [83] [[65], [120]]) 0 0 []], []]
        (State (Rule [83] [[65], [120]]) 0 0 []) 0
     = Inr [[State start_rule 0 0 [],
             State (Rule [83] [[65], [120]]) 0 0 [],
             State (Rule [65] []) 0 0 [],
             State (Rule [83] [[65], [120]]) 1 0 [(0, 0)]], []]"
  by (simp add: run_simps)

text \<open>
  The outcome of the example does not depend on the completion inside \<^verbatim>\<open>predict\<close>:
  without it the work list reaches the state \<open>A \<rightarrow> \<bullet>\<close> of the empty rule at index 2 of
  column 0 and completes it there, and the parser returns the same tree and the same chart.
\<close>

theorem parse_epsilon_without_completion:
  "parse_plain (\<lambda>_. False) (\<lambda>_. False) (Suc (Suc 0))
     \<lparr>rules = [Rule [83] [[65], [120]], Rule [65] []], chart = []\<rparr> [120]
     = Some (Inr ((True, Some (ParseTree [83] [ParseTree [65] [], ParseTree [120] []])),
          \<lparr>rules = [Rule [83] [[65], [120]], Rule [65] []],
             chart =
               [[State start_rule 0 0 [],
                 State (Rule [83] [[65], [120]]) 0 0 [],
                 State (Rule [65] []) 0 0 [],
                 State (Rule [83] [[65], [120]]) 1 0 [(0, 0)]],
                [State (Rule [83] [[65], [120]]) 2 0 [(0, 0), (0, 1)],
                 State start_rule 1 0 [(0, 1)]]]\<rparr>))
   \<and> parse (\<lambda>_. False) (\<lambda>_. False) (Suc (Suc 0))
     \<lparr>rules = [Rule [83] [[65], [120]], Rule [65] []], chart = []\<rparr> [120]
     = parse_plain (\<lambda>_. False) (\<lambda>_. False) (Suc (Suc 0))
         \<lparr>rules = [Rule [83] [[65], [120]], Rule [65] []], chart = []\<rparr> [120]
   \<and> predict_plain (\<lambda>_. False) [Rule [83] [[65], [120]], Rule [65] []]
        [[State start_rule 0 0 [], State (Rule [83] [[65], [120]]) 0 0 []], []]
        (State (Rule [83] [[65], [120]]) 0 0 []) 0
     = Inr [[State start_rule 0 0 [],
             State (Rule [83] [[65], [120]]) 0 0 [],
             State (Rule [65] []) 0 0 []], []]"
  by (simp add: run_simps parse_plain_def build_chart_plain_def process_column_plain.simps
      process_state_plain_def predict_plain_def)

subsection \<open>The chart left by an earlier call\<close>

text \<open>
  C7: the outcome of \<^verbatim>\<open>parse\<close> does not depend on the chart that the parser object holds
  when it is called, and a second call on the same sentence, on the parser object that the
  first call leaves, returns what the first returned.
\<close>

theorem parse_independent_of_old_chart:
  "parse U W depth (p\<lparr>chart := c\<rparr>) sentence = parse U W depth p sentence
   \<and> (parse U W depth p sentence = Some (Inr (r, p')) \<longrightarrow>
        parse U W depth p' sentence = Some (Inr (r, p')))"
  by (auto simp: parse_def split: option.splits sum.splits)

theorem parse_independent_of_old_chart_witness:
  "parse (\<lambda>_. False) (\<lambda>_. False) (Suc (Suc 0)) \<lparr>rules = [Rule [83] [[97]]], chart = []\<rparr> [97]
     = Some (Inr ((True, Some (ParseTree [83] [ParseTree [97] []])),
         \<lparr>rules = [Rule [83] [[97]]],
            chart = [[State start_rule 0 0 [], State (Rule [83] [[97]]) 0 0 []],
                     [State (Rule [83] [[97]]) 1 0 [(0, 1)], State start_rule 1 0 [(0, 1)]]]\<rparr>))
   \<and> parse (\<lambda>_. False) (\<lambda>_. False) (Suc (Suc 0))
        \<lparr>rules = [Rule [83] [[97]]],
           chart = [[State start_rule 0 0 [], State (Rule [83] [[97]]) 0 0 []],
                    [State (Rule [83] [[97]]) 1 0 [(0, 1)], State start_rule 1 0 [(0, 1)]]]\<rparr> [97]
     = Some (Inr ((True, Some (ParseTree [83] [ParseTree [97] []])),
         \<lparr>rules = [Rule [83] [[97]]],
            chart = [[State start_rule 0 0 [], State (Rule [83] [[97]]) 0 0 []],
                     [State (Rule [83] [[97]]) 1 0 [(0, 1)], State start_rule 1 0 [(0, 1)]]]\<rparr>))"
proof -
  let ?p = "\<lparr>rules = [Rule [83] [[97]]], chart = []\<rparr>"
  let ?p' = "\<lparr>rules = [Rule [83] [[97]]],
            chart = [[State start_rule 0 0 [], State (Rule [83] [[97]]) 0 0 []],
                     [State (Rule [83] [[97]]) 1 0 [(0, 1)], State start_rule 1 0 [(0, 1)]]]\<rparr>"
  let ?r = "(True, Some (ParseTree [83] [ParseTree [97] []]))"
  have run: "parse (\<lambda>_. False) (\<lambda>_. False) (Suc (Suc 0)) ?p [97] = Some (Inr (?r, ?p'))"
    by (simp add: run_simps)
  from parse_independent_of_old_chart [where U = "\<lambda>_. False" and W = "\<lambda>_. False"
      and depth = "Suc (Suc 0)" and p = ?p and c = "[]" and sentence = "[97]" and r = ?r and p' = ?p'] run
  show ?thesis by simp
qed


subsection \<open>Indexing and insertion\<close>

lemma slot_valid: "0 \<le> i \<Longrightarrow> i < int (length xs) \<Longrightarrow> slot xs i = Some (nat i)"
  by (simp add: slot_def)

lemma slot_less: "slot xs i = Some k \<Longrightarrow> k < length xs"
  by (auto simp: slot_def split: if_splits)

lemma getitem_valid: "0 \<le> i \<Longrightarrow> i < int (length xs) \<Longrightarrow> getitem xs i = Inr (xs ! nat i)"
  by (simp add: getitem_def slot_valid)

lemma getitem_nat: "k < length xs \<Longrightarrow> getitem xs (int k) = Inr (xs ! k)"
  by (simp add: getitem_def slot_def)

lemma add_to_chart_cases:
  assumes "add_to_chart ch st p = Inr ch'"
  obtains (same) "ch' = ch"
  | (new) c where "slot ch p = Some c" "c < length ch" "st \<notin> set (ch ! c)"
      "ch' = ch[c := ch ! c @ [st]]"
proof (cases "ch' = ch")
  case True
  then show ?thesis by (rule same)
next
  case False
  with assms obtain c where c: "slot ch p = Some c" "st \<notin> set (ch ! c)"
    "ch' = ch[c := ch ! c @ [st]]"
    by (auto simp: add_to_chart_def split: if_splits option.splits)
  from c(1) have "c < length ch" by (rule slot_less)
  from new [OF c(1) this c(2,3)] show ?thesis .
qed

lemma add_to_chart_valid:
  "0 \<le> p \<Longrightarrow> p < int (length ch) \<Longrightarrow>
   add_to_chart ch st p
     = Inr (if st \<in> set (ch ! nat p) then ch else ch[nat p := ch ! nat p @ [st]])"
  by (simp add: add_to_chart_def slot_valid)

lemma add_to_chart_length: "add_to_chart ch st p = Inr ch' \<Longrightarrow> length ch' = length ch"
  by (erule add_to_chart_cases) auto

lemma next_symbol_valid:
  "0 \<le> dot s \<Longrightarrow> \<not> is_complete s \<Longrightarrow> next_symbol s = Inr (Some (body (rule s) ! nat (dot s)))"
  by (simp add: next_symbol_def is_complete_def getitem_valid)

text \<open>An invariant of the chart that every insertion of the loop keeps holds at its end.\<close>

lemma complete_loop_invariant:
  assumes "complete_loop ch st position c k = Inr ch'" and "P ch"
    and step: "\<And>ch k ch'. P ch \<Longrightarrow> k < length (ch ! c) \<Longrightarrow> \<not> is_complete (ch ! c ! k) \<Longrightarrow>
       next_symbol (ch ! c ! k) = Inr (Some (head (rule st))) \<Longrightarrow>
       add_to_chart ch (advance (ch ! c ! k) (start st, position)) position = Inr ch' \<Longrightarrow> P ch'"
  shows "P ch'"
  using assms
proof (induction ch st position c k rule: complete_loop.induct)
  case (1 ch st position c k)
  note run = "1.prems"(1) [unfolded complete_loop.simps [of ch st position c k]]
  note step = "1.prems"(3)
  show ?case
  proof (cases "k < length (ch ! c)")
    case False
    with run "1.prems"(2) show ?thesis by simp
  next
    case k: True
    show ?thesis
    proof (cases "is_complete (ch ! c ! k)")
      case True
      with k run have "complete_loop ch st position c (Suc k) = Inr ch'" by simp
      from "1.IH"(3) [OF k _ this "1.prems"(2) step] True show ?thesis by simp
    next
      case inc: False
      from k inc run obtain ns where ns: "next_symbol (ch ! c ! k) = Inr ns"
        by (auto split: sum.splits)
      show ?thesis
      proof (cases "ns = Some (head (rule st))")
        case False
        with k inc ns run have "complete_loop ch st position c (Suc k) = Inr ch'" by simp
        from "1.IH"(2) [OF k inc ns False this "1.prems"(2) step] show ?thesis .
      next
        case True
        with k inc ns run obtain ch1 where
          ch1: "add_to_chart ch (advance (ch ! c ! k) (start st, position)) position = Inr ch1"
          and rest: "complete_loop ch1 st position c (Suc k) = Inr ch'"
          by (auto split: sum.splits)
        have "P ch1"
          using step [OF "1.prems"(2) k inc _ ch1] ns True by simp
        from "1.IH"(1) [OF k inc ns True ch1 rest this step] show ?thesis .
      qed
    qed
  qed
qed

subsection \<open>No state twice in a column\<close>

lemma distinct_add:
  assumes "columns_distinct ch" "add_to_chart ch st p = Inr ch'"
  shows "columns_distinct ch'"
  using assms(2)
proof (cases rule: add_to_chart_cases)
  case same
  with assms(1) show ?thesis by simp
next
  case (new c)
  have "distinct (ch ! c @ [st])"
    using assms(1) new(2,3) by (simp add: columns_distinct_def)
  with assms(1) show ?thesis
    unfolding new(4) columns_distinct_def
    by (metis insertE set_update_subset_insert subsetD)
qed

lemma distinct_complete:
  assumes "columns_distinct ch" "complete ch st p = Inr ch'"
  shows "columns_distinct ch'"
proof (cases "is_complete st")
  case False
  with assms show ?thesis by (simp add: complete_def)
next
  case True
  with assms(2) obtain c where "complete_loop ch st p c 0 = Inr ch'"
    by (auto simp: complete_def split: option.splits)
  then show ?thesis
    using assms(1) by (rule complete_loop_invariant) (rule distinct_add)
qed

lemma distinct_predict_loop:
  "columns_distinct ch \<Longrightarrow> predict_loop ch nt p rs = Inr ch' \<Longrightarrow> columns_distinct ch'"
proof (induction rs arbitrary: ch)
  case Nil
  then show ?case by simp
next
  case (Cons r rs)
  show ?case
  proof (cases "head r = nt")
    case False
    with Cons show ?thesis by simp
  next
    case True
    with Cons.prems(2) obtain ch1 where
      ch1: "add_to_chart ch (State r 0 p []) p = Inr ch1"
      by (auto split: sum.splits)
    have d1: "columns_distinct ch1" using Cons.prems(1) ch1 by (rule distinct_add)
    show ?thesis
    proof (cases "body r = []")
      case False
      with True ch1 Cons.prems(2) have "predict_loop ch1 nt p rs = Inr ch'" by simp
      with d1 show ?thesis by (rule Cons.IH)
    next
      case e: True
      with True ch1 Cons.prems(2) obtain ch2 where
        ch2: "complete ch1 (State r 0 p []) p = Inr ch2" and "predict_loop ch2 nt p rs = Inr ch'"
        by (auto split: sum.splits)
      with distinct_complete [OF d1 ch2] show ?thesis by (rule_tac Cons.IH)
    qed
  qed
qed

lemma distinct_predict:
  "columns_distinct ch \<Longrightarrow> predict U rs ch st p = Inr ch' \<Longrightarrow> columns_distinct ch'"
  by (auto simp: predict_def split: sum.splits if_splits dest: distinct_predict_loop)

lemma distinct_scan:
  "columns_distinct ch \<Longrightarrow> scan ch st p words = Inr ch' \<Longrightarrow> columns_distinct ch'"
  by (auto simp: scan_def split: sum.splits if_splits dest: distinct_add)

subsection \<open>Every state in the column of its last span\<close>

lemma placed_add:
  assumes "all_placed ch" "add_to_chart ch st p = Inr ch'"
    and "\<And>c. slot ch p = Some c \<Longrightarrow> placed c st"
  shows "all_placed ch'"
  using assms(2)
proof (cases rule: add_to_chart_cases)
  case same
  with assms(1) show ?thesis by simp
next
  case (new c)
  have "placed c st" using new(1) by (rule assms(3))
  with assms(1) new(2) show ?thesis
    unfolding new(4) all_placed_def by (auto simp: nth_list_update)
qed

lemma placed_advance:
  "int (length (backpointers s)) = dot s \<Longrightarrow> placed e (advance s (a, int e))"
  by (auto simp: placed_def advance_def)

lemma placed_complete:
  assumes "all_placed ch" "0 \<le> p" "complete ch st p = Inr ch'"
  shows "all_placed ch'"
proof (cases "is_complete st")
  case False
  with assms show ?thesis by (simp add: complete_def)
next
  case True
  with assms(3) obtain c where c: "slot ch (start st) = Some c"
    and run: "complete_loop ch st p c 0 = Inr ch'"
    by (auto simp: complete_def split: option.splits)
  have cl: "c < length ch" using c by (rule slot_less)
  have "all_placed ch' \<and> length ch' = length ch"
    using run
  proof (rule complete_loop_invariant)
    show "all_placed ch \<and> length ch = length ch" using assms(1) by simp
  next
    fix ch1 k ch2
    assume P: "all_placed ch1 \<and> length ch1 = length ch" and k: "k < length (ch1 ! c)"
      and add: "add_to_chart ch1 (advance (ch1 ! c ! k) (start st, p)) p = Inr ch2"
    have "placed c (ch1 ! c ! k)"
      using P k cl by (simp add: all_placed_def)
    then have len: "int (length (backpointers (ch1 ! c ! k))) = dot (ch1 ! c ! k)"
      by (simp add: placed_def)
    have "all_placed ch2"
      using conjunct1 [OF P] add
    proof (rule placed_add)
      fix d assume "slot ch1 p = Some d"
      with assms(2) have "p = int d" by (auto simp: slot_def split: if_splits)
      with placed_advance [OF len, of d "start st"]
      show "placed d (advance (ch1 ! c ! k) (start st, p))" by simp
    qed
    with P add show "all_placed ch2 \<and> length ch2 = length ch"
      by (simp add: add_to_chart_length)
  qed
  then show ?thesis ..
qed

lemma placed_predict_loop:
  "all_placed ch \<Longrightarrow> 0 \<le> p \<Longrightarrow> predict_loop ch nt p rs = Inr ch' \<Longrightarrow> all_placed ch'"
proof (induction rs arbitrary: ch)
  case Nil
  then show ?case by simp
next
  case (Cons r rs)
  show ?case
  proof (cases "head r = nt")
    case False
    with Cons show ?thesis by simp
  next
    case True
    with Cons.prems(3) obtain ch1 where
      ch1: "add_to_chart ch (State r 0 p []) p = Inr ch1"
      by (auto split: sum.splits)
    have p1: "all_placed ch1"
      using Cons.prems(1) ch1
    proof (rule placed_add)
      fix c assume "slot ch p = Some c"
      with Cons.prems(2) have "p = int c" by (auto simp: slot_def split: if_splits)
      then show "placed c (State r 0 p [])" by (simp add: placed_def)
    qed
    show ?thesis
    proof (cases "body r = []")
      case False
      with True ch1 Cons.prems(3) have "predict_loop ch1 nt p rs = Inr ch'" by simp
      from Cons.IH [OF p1 Cons.prems(2) this] show ?thesis .
    next
      case e: True
      with True ch1 Cons.prems(3) obtain ch2 where
        ch2: "complete ch1 (State r 0 p []) p = Inr ch2"
        and rest: "predict_loop ch2 nt p rs = Inr ch'"
        by (auto split: sum.splits)
      from Cons.IH [OF placed_complete [OF p1 Cons.prems(2) ch2] Cons.prems(2) rest]
      show ?thesis .
    qed
  qed
qed

lemma placed_predict:
  "all_placed ch \<Longrightarrow> 0 \<le> p \<Longrightarrow> predict U rs ch st p = Inr ch' \<Longrightarrow> all_placed ch'"
  by (auto simp: predict_def split: sum.splits if_splits dest: placed_predict_loop)

lemma placed_scan:
  assumes "all_placed ch" "0 \<le> p" "int (length (backpointers st)) = dot st"
    "scan ch st p words = Inr ch'"
  shows "all_placed ch'"
proof (cases "ch' = ch")
  case True
  with assms(1) show ?thesis by simp
next
  case False
  with assms(4) have add: "add_to_chart ch (advance st (p, p + 1)) (p + 1) = Inr ch'"
    by (auto simp: scan_def split: if_splits sum.splits)
  from assms(1) add show ?thesis
  proof (rule placed_add)
    fix c assume "slot ch (p + 1) = Some c"
    with assms(2) have "p + 1 = int c" by (auto simp: slot_def split: if_splits)
    with placed_advance [OF assms(3), of c p] show "placed c (advance st (p, p + 1))" by simp
  qed
qed

subsection \<open>Growing charts\<close>

lemma grows_refl: "grows ch ch"
  by (simp add: grows_def)

lemma grows_trans: "grows ch1 ch2 \<Longrightarrow> grows ch2 ch3 \<Longrightarrow> grows ch1 ch3"
  unfolding grows_def by (metis append.assoc)

lemma grows_length: "grows ch ch' \<Longrightarrow> length ch' = length ch"
  by (simp add: grows_def)

lemma grows_nth:
  assumes "grows ch ch'" "e < length ch" "j < length (ch ! e)"
  shows "ch' ! e ! j = ch ! e ! j" and "j < length (ch' ! e)"
proof -
  from assms(1,2) obtain ys where "ch' ! e = ch ! e @ ys" by (auto simp: grows_def)
  with assms(3) show "ch' ! e ! j = ch ! e ! j" and "j < length (ch' ! e)"
    by (simp_all add: nth_append)
qed

lemma grows_add: "add_to_chart ch st p = Inr ch' \<Longrightarrow> grows ch ch'"
  by (erule add_to_chart_cases) (auto simp: grows_def nth_list_update)

lemma found_before_mono:
  assumes "found_before ch e j symb bp" "grows ch ch'" "e < length ch"
    "e < e' \<or> (e = e' \<and> j \<le> j')"
  shows "found_before ch' e' j' symb bp"
proof -
  let ?b = "nat (snd bp)"
  from assms(1) obtain i where i: "0 \<le> snd bp" "?b \<le> e" "i < length (ch ! ?b)"
    "matches symb (fst bp) (ch ! ?b ! i)" "?b < e \<or> i < j"
    by (auto simp: found_before_def)
  from i(2) assms(3) have b: "?b < length ch" by simp
  from grows_nth [OF assms(2) b i(3)] i(4)
  have "i < length (ch' ! ?b)" "matches symb (fst bp) (ch' ! ?b ! i)" by simp_all
  moreover from i(2,5) assms(4) have "?b \<le> e'" "?b < e' \<or> i < j'" by auto
  ultimately show ?thesis using i(1) by (auto simp: found_before_def)
qed

lemma child_ok_mono:
  "child_ok U words ch e j symb bp \<Longrightarrow> grows ch ch' \<Longrightarrow> e < length ch \<Longrightarrow>
   e < e' \<or> (e = e' \<and> j \<le> j') \<Longrightarrow> child_ok U words ch' e' j' symb bp"
  unfolding child_ok_def by (auto dest: found_before_mono split: if_splits)

lemma ok_state_mono:
  "ok_state U rs words ch e j s \<Longrightarrow> grows ch ch' \<Longrightarrow> e < length ch \<Longrightarrow> j \<le> j' \<Longrightarrow>
   ok_state U rs words ch' e j' s"
  unfolding ok_state_def using child_ok_mono [of U words ch e j _ _ ch' e j'] by auto

lemma inv_add:
  assumes "inv U rs words ch" "0 \<le> p" "p < int (length ch)"
    "ok_state U rs words ch (nat p) (length (ch ! nat p)) st"
    "add_to_chart ch st p = Inr ch'"
  shows "inv U rs words ch'"
proof -
  have g: "grows ch ch'" using assms(5) by (rule grows_add)
  have len: "length ch' = length ch" using g by (rule grows_length)
  have pl: "nat p < length ch" using assms(2,3) by simp
  have "ok_state U rs words ch' e j (ch' ! e ! j)" if e: "e < length ch" and j: "j < length (ch' ! e)"
    for e j
  proof (cases "j < length (ch ! e)")
    case True
    with assms(1) e have "ok_state U rs words ch e j (ch ! e ! j)" by (simp add: inv_def)
    from ok_state_mono [OF this g e order_refl] grows_nth(1) [OF g e True] show ?thesis by simp
  next
    case False
    with j have ne: "ch' \<noteq> ch" by auto
    from assms(5) ne have ch': "ch' = ch[nat p := ch ! nat p @ [st]]"
      using assms(2,3) by (auto simp: add_to_chart_valid split: if_splits)
    with False j e have ep: "e = nat p" by (cases "e = nat p") auto
    with ch' pl j False have "j = length (ch ! nat p)" by simp
    with ch' pl ep have "ch' ! e ! j = st" by simp
    with ok_state_mono [OF assms(4) g pl order_refl] ep \<open>j = length (ch ! nat p)\<close>
    show ?thesis by simp
  qed
  with assms(1) len show ?thesis by (simp add: inv_def)
qed

subsection \<open>The loop of complete ends without an error\<close>

lemma complete_loop_total:
  assumes "P ch"
    and "\<And>ch k. P ch \<Longrightarrow> k < length (ch ! c) \<Longrightarrow> \<not> is_complete (ch ! c ! k) \<Longrightarrow>
       \<exists>ns. next_symbol (ch ! c ! k) = Inr ns \<and>
         (ns = Some (head (rule st)) \<longrightarrow>
           (\<exists>ch'. add_to_chart ch (advance (ch ! c ! k) (start st, position)) position = Inr ch'
              \<and> P ch'))"
  shows "\<exists>ch'. complete_loop ch st position c k = Inr ch' \<and> P ch'"
  using assms
proof (induction ch st position c k rule: complete_loop.induct)
  case (1 ch st position c k)
  note step = "1.prems"(2)
  show ?case
  proof (cases "k < length (ch ! c)")
    case False
    with "1.prems"(1) show ?thesis by (simp add: complete_loop.simps [of ch st position c k])
  next
    case k: True
    show ?thesis
    proof (cases "is_complete (ch ! c ! k)")
      case True
      from "1.IH"(3) [OF k _ "1.prems"(1) step] True k show ?thesis
        by (simp add: complete_loop.simps [of ch st position c k])
    next
      case inc: False
      from step [OF "1.prems"(1) k inc] obtain ns where ns: "next_symbol (ch ! c ! k) = Inr ns"
        and add: "ns = Some (head (rule st)) \<longrightarrow>
           (\<exists>ch'. add_to_chart ch (advance (ch ! c ! k) (start st, position)) position = Inr ch'
              \<and> P ch')"
        by blast
      show ?thesis
      proof (cases "ns = Some (head (rule st))")
        case False
        from "1.IH"(2) [OF k inc ns False "1.prems"(1) step] False k inc ns show ?thesis
          by (simp add: complete_loop.simps [of ch st position c k])
      next
        case True
        with add obtain ch1 where
          ch1: "add_to_chart ch (advance (ch ! c ! k) (start st, position)) position = Inr ch1"
          and P1: "P ch1" by blast
        from "1.IH"(1) [OF k inc ns True ch1 P1 step] True k inc ns ch1 show ?thesis
          by (simp add: complete_loop.simps [of ch st position c k])
      qed
    qed
  qed
qed

subsection \<open>The invariant of the chart\<close>

lemma chain_append:
  "chain a (bs @ [bp]) e = (chain a bs (fst bp) \<and> fst bp \<le> snd bp \<and> snd bp = e)"
  by (induction bs arbitrary: a) auto

lemma chain_le: "chain a bs e \<Longrightarrow> a \<le> e"
  by (induction bs arbitrary: a) fastforce+

lemma chain_bounds: "chain a bs e \<Longrightarrow> bp \<in> set bs \<Longrightarrow> a \<le> fst bp \<and> fst bp \<le> snd bp \<and> snd bp \<le> e"
proof (induction bs arbitrary: a)
  case Nil
  then show ?case by simp
next
  case (Cons b bs)
  from Cons.prems(1) have c: "fst b = a" "a \<le> snd b" "chain (snd b) bs e" by simp_all
  show ?case
  proof (cases "bp = b")
    case True
    with c chain_le [OF c(3)] show ?thesis by simp
  next
    case False
    with Cons.prems(2) have "bp \<in> set bs" by simp
    from Cons.IH [OF c(3) this] c(2) show ?thesis by simp
  qed
qed

lemma ok_state_dot: "ok_state U rs words ch e j s \<Longrightarrow> 0 \<le> dot s"
  by (auto simp: ok_state_def)

lemma ok_state_start_le: "ok_state U rs words ch e j s \<Longrightarrow> 0 \<le> start s \<and> start s \<le> int e"
  by (auto simp: ok_state_def dest: chain_le)

lemma ok_state_advance:
  assumes s: "ok_state U rs words ch c k s" and inc: "\<not> is_complete s"
    and pos: "c < e \<or> (c = e \<and> k \<le> j)" and c: "c < length ch"
    and bp: "fst bp = int c" "snd bp = int e"
    and child: "child_ok U words ch e j (body (rule s) ! nat (dot s)) bp"
  shows "ok_state U rs words ch e j (advance s bp)"
proof -
  from s have dots: "int (length (backpointers s)) = dot s" by (simp add: ok_state_def)
  then have n: "nat (dot s) = length (backpointers s)" by simp
  have kids: "child_ok U words ch e j (body (rule s) ! i) ((backpointers s @ [bp]) ! i)"
    if "i < Suc (length (backpointers s))" for i
  proof (cases "i < length (backpointers s)")
    case True
    with s have "child_ok U words ch c k (body (rule s) ! i) (backpointers s ! i)"
      by (simp add: ok_state_def)
    from child_ok_mono [OF this grows_refl c pos] True show ?thesis by (simp add: nth_append)
  next
    case False
    with that have "i = length (backpointers s)" by simp
    with child n show ?thesis by simp
  qed
  from pos have "c \<le> e" by auto
  with s inc bp dots kids show ?thesis
    by (simp add: ok_state_def advance_def is_complete_def chain_append)
qed

lemma inv_complete:
  assumes I: "inv U rs words ch" and D: "columns_distinct ch"
    and e: "e < length ch" and jc: "jc < length (ch ! e)" and st: "ch ! e ! jc = st"
  shows "\<exists>ch'. complete ch st (int e) = Inr ch' \<and> inv U rs words ch' \<and> columns_distinct ch'
           \<and> grows ch ch'"
proof (cases "is_complete st")
  case False
  with I D show ?thesis by (auto simp: complete_def grows_refl)
next
  case comp: True
  from I e jc st have okst: "ok_state U rs words ch e jc st" by (auto simp: inv_def)
  let ?c = "nat (start st)"
  from ok_state_start_le [OF okst] e have c: "0 \<le> start st" "start st < int (length ch)" "?c \<le> e"
    by auto
  let ?P = "\<lambda>ch1. inv U rs words ch1 \<and> columns_distinct ch1 \<and> grows ch ch1"
  have "\<exists>ch'. complete_loop ch st (int e) ?c 0 = Inr ch' \<and> ?P ch'"
  proof (rule complete_loop_total)
    show "?P ch" using I D by (simp add: grows_refl)
  next
    fix ch1 k
    assume P: "?P ch1" and k: "k < length (ch1 ! ?c)" and inc: "\<not> is_complete (ch1 ! ?c ! k)"
    let ?s = "ch1 ! ?c ! k"
    from P have g: "grows ch ch1" and I1: "inv U rs words ch1" and D1: "columns_distinct ch1"
      by simp_all
    have len: "length ch1 = length ch" using g by (rule grows_length)
    from I1 k c(3) e len have oks: "ok_state U rs words ch1 ?c k ?s" by (simp add: inv_def)
    have ns: "next_symbol ?s = Inr (Some (body (rule ?s) ! nat (dot ?s)))"
      using ok_state_dot [OF oks] inc by (rule next_symbol_valid)
    have "\<exists>ch'. add_to_chart ch1 (advance ?s (start st, int e)) (int e) = Inr ch' \<and> ?P ch'"
      if eq: "body (rule ?s) ! nat (dot ?s) = head (rule st)"
    proof -
      let ?j = "length (ch1 ! e)"
      have jc1: "jc < ?j" "ch1 ! e ! jc = st"
        using grows_nth [OF g e jc] st by simp_all
      have okst1: "ok_state U rs words ch1 e jc st"
        using ok_state_mono [OF okst g e order_refl] .
      have child: "child_ok U words ch1 e ?j (body (rule ?s) ! nat (dot ?s)) (start st, int e)"
      proof (cases "is_nonterminal U (Some (head (rule st)))")
        case True
        have "matches (head (rule st)) (start st) (ch1 ! e ! jc)"
          using comp jc1(2) by (simp add: matches_def)
        with jc1(1) have "found_before ch1 e ?j (head (rule st)) (start st, int e)"
          by (auto simp: found_before_def)
        with True eq show ?thesis by (simp add: child_ok_def)
      next
        case False
        with okst have "rule st = start_rule" by (auto simp: ok_state_def)
        with False eq show ?thesis by (simp add: child_ok_def start_rule_def)
      qed
      have pos: "?c < e \<or> (?c = e \<and> k \<le> ?j)" using c(3) k by auto
      have "ok_state U rs words ch1 e ?j (advance ?s (start st, int e))"
        using oks inc pos _ _ _ child
      proof (rule ok_state_advance)
        show "?c < length ch1" using c(3) e len by simp
        show "fst (start st, int e) = int ?c" using c(1) by simp
        show "snd (start st, int e) = int e" by simp
      qed
      with e len have ok_new: "ok_state U rs words ch1 (nat (int e)) (length (ch1 ! nat (int e)))
          (advance ?s (start st, int e))" by simp
      from e len have valid: "0 \<le> int e" "int e < int (length ch1)" by simp_all
      obtain ch2 where
        ch2: "add_to_chart ch1 (advance ?s (start st, int e)) (int e) = Inr ch2"
        using add_to_chart_valid [OF valid] by blast
      from inv_add [OF I1 valid ok_new ch2] distinct_add [OF D1 ch2]
        grows_trans [OF g grows_add [OF ch2]] ch2
      show ?thesis by blast
    qed
    with ns show "\<exists>ns. next_symbol ?s = Inr ns \<and>
         (ns = Some (head (rule st)) \<longrightarrow>
           (\<exists>ch'. add_to_chart ch1 (advance ?s (start st, int e)) (int e) = Inr ch' \<and> ?P ch'))"
      by auto
  qed
  with comp c(1,2) show ?thesis by (simp add: complete_def slot_valid)
qed

lemma inv_predict_loop:
  assumes "inv U rs words ch" "columns_distinct ch" "e < length ch"
    "is_nonterminal U (Some nt)" "set rs' \<subseteq> set rs"
  shows "\<exists>ch'. predict_loop ch nt (int e) rs' = Inr ch' \<and> inv U rs words ch'
           \<and> columns_distinct ch' \<and> grows ch ch'"
  using assms(1,2,3,5)
proof (induction rs' arbitrary: ch)
  case Nil
  then show ?case by (simp add: grows_refl)
next
  case (Cons r rs')
  from Cons.prems(4) have sub: "set rs' \<subseteq> set rs" and r: "r \<in> set rs" by simp_all
  show ?case
  proof (cases "head r = nt")
    case False
    with Cons.IH [OF Cons.prems(1,2,3) sub] show ?thesis by simp
  next
    case True
    let ?new = "State r 0 (int e) []"
    from Cons.prems(3) have valid: "0 \<le> int e" "int e < int (length ch)" by simp_all
    obtain ch1 where ch1: "add_to_chart ch ?new (int e) = Inr ch1"
      using add_to_chart_valid [OF valid] by blast
    have "ok_state U rs words ch e (length (ch ! e)) ?new"
      using r True assms(4) by (simp add: ok_state_def)
    then have "ok_state U rs words ch (nat (int e)) (length (ch ! nat (int e))) ?new" by simp
    from inv_add [OF Cons.prems(1) valid this ch1]
    have I1: "inv U rs words ch1" .
    have D1: "columns_distinct ch1" using Cons.prems(2) ch1 by (rule distinct_add)
    have g1: "grows ch ch1" using ch1 by (rule grows_add)
    have e1: "e < length ch1" using g1 Cons.prems(3) by (simp add: grows_length)
    show ?thesis
    proof (cases "body r = []")
      case False
      from Cons.IH [OF I1 D1 e1 sub] obtain ch' where
        "predict_loop ch1 nt (int e) rs' = Inr ch'" "inv U rs words ch'" "columns_distinct ch'"
        "grows ch1 ch'" by blast
      with True False ch1 grows_trans [OF g1] show ?thesis by auto
    next
      case eps: True
      have "?new \<in> set (ch1 ! e)"
        using ch1 Cons.prems(3) by (auto simp: add_to_chart_valid [OF valid] split: if_splits)
      then obtain jc where jc: "jc < length (ch1 ! e)" "ch1 ! e ! jc = ?new"
        by (auto simp: in_set_conv_nth)
      from inv_complete [OF I1 D1 e1 jc] obtain ch2 where
        ch2: "complete ch1 ?new (int e) = Inr ch2" and I2: "inv U rs words ch2"
        and D2: "columns_distinct ch2" and g2: "grows ch1 ch2" by blast
      have e2: "e < length ch2" using g2 e1 by (simp add: grows_length)
      from Cons.IH [OF I2 D2 e2 sub] obtain ch' where
        "predict_loop ch2 nt (int e) rs' = Inr ch'" "inv U rs words ch'" "columns_distinct ch'"
        "grows ch2 ch'" by blast
      with True eps ch1 ch2 grows_trans [OF g1 grows_trans [OF g2]] show ?thesis by auto
    qed
  qed
qed

lemma inv_scan:
  assumes I: "inv U rs words ch" and D: "columns_distinct ch"
    and e: "e < length ch" and j: "j < length (ch ! e)" and st: "ch ! e ! j = st"
    and inc: "\<not> is_complete st"
    and tm: "\<not> is_nonterminal U (Some (body (rule st) ! nat (dot st)))"
  shows "\<exists>ch'. scan ch st (int e) words = Inr ch' \<and> inv U rs words ch' \<and> columns_distinct ch'
           \<and> grows ch ch'"
proof -
  from I e j st have okst: "ok_state U rs words ch e j st" by (auto simp: inv_def)
  let ?x = "body (rule st) ! nat (dot st)"
  have ns: "next_symbol st = Inr (Some ?x)"
    using ok_state_dot [OF okst] inc by (rule next_symbol_valid)
  from I have len: "length ch = length words + 1" by (simp add: inv_def)
  show ?thesis
  proof (cases "e < length words \<and> ?x \<noteq> [] \<and> ?x = words ! e")
    case False
    then have "scan ch st (int e) words = Inr ch"
      using ns by (auto simp: scan_def getitem_nat)
    with I D show ?thesis by (simp add: grows_refl)
  next
    case True
    let ?new = "advance st (int e, int e + 1)"
    from True len have valid: "0 \<le> int e + 1" "int e + 1 < int (length ch)" by simp_all
    obtain ch' where ch': "add_to_chart ch ?new (int e + 1) = Inr ch'"
      using add_to_chart_valid [OF valid] by blast
    have run: "scan ch st (int e) words = Inr ch'"
      using True ns ch' by (auto simp: scan_def getitem_nat)
    let ?j = "length (ch ! Suc e)"
    have child: "child_ok U words ch (Suc e) ?j ?x (int e, int e + 1)"
      using tm True by (auto simp: child_ok_def)
    have "ok_state U rs words ch (Suc e) ?j ?new"
      using okst inc _ e _ _ child
    proof (rule ok_state_advance)
      show "e < Suc e \<or> (e = Suc e \<and> j \<le> ?j)" by simp
      show "fst (int e, int e + 1) = int e" by simp
      show "snd (int e, int e + 1) = int (Suc e)" by simp
    qed
    moreover have "nat (int e + 1) = Suc e" by simp
    ultimately have "ok_state U rs words ch (nat (int e + 1)) (length (ch ! nat (int e + 1))) ?new"
      by simp
    from inv_add [OF I valid this ch'] distinct_add [OF D ch'] grows_add [OF ch'] run
    show ?thesis by blast
  qed
qed

lemma inv_process_state:
  assumes I: "inv U rs words ch" and D: "columns_distinct ch"
    and e: "e < length ch" and j: "j < length (ch ! e)"
  shows "\<exists>ch'. process_state U rs words ch e (ch ! e ! j) = Inr ch' \<and> inv U rs words ch'
           \<and> columns_distinct ch' \<and> grows ch ch'"
proof (cases "is_complete (ch ! e ! j)")
  case True
  with inv_complete [OF I D e j refl] show ?thesis by (simp add: process_state_def)
next
  case inc: False
  let ?st = "ch ! e ! j"
  let ?x = "body (rule ?st) ! nat (dot ?st)"
  from I e j have okst: "ok_state U rs words ch e j ?st" by (auto simp: inv_def)
  have ns: "next_symbol ?st = Inr (Some ?x)"
    using ok_state_dot [OF okst] inc by (rule next_symbol_valid)
  show ?thesis
  proof (cases "is_nonterminal U (Some ?x)")
    case True
    from inv_predict_loop [OF I D e True subset_refl] True inc ns show ?thesis
      by (simp add: process_state_def predict_def)
  next
    case False
    from inv_scan [OF I D e j refl inc False] False inc ns show ?thesis
      by (simp add: process_state_def)
  qed
qed

subsection \<open>The work list of a column ends\<close>

lemma finite_universe: "finite (universe rs n)"
proof -
  let ?R = "set (start_rule # rs)"
  let ?L = "sum_list (map (\<lambda>r. length (body r)) (start_rule # rs))"
  let ?A = "{0 .. int n} \<times> {0 .. int n}"
  let ?B = "{bs. set bs \<subseteq> ?A \<and> length bs \<le> ?L}"
  let ?f = "\<lambda>(r, d, a, bs). State r d a bs"
  have fin: "finite (?R \<times> {0 .. int ?L} \<times> {0 .. int n} \<times> ?B)"
    by (intro finite_cartesian_product finite_lists_length_le) simp_all
  have "universe rs n \<subseteq> ?f ` (?R \<times> {0 .. int ?L} \<times> {0 .. int n} \<times> ?B)"
  proof
    fix s assume s: "s \<in> universe rs n"
    then have r: "rule s \<in> ?R" by (simp add: universe_def)
    then have "length (body (rule s)) \<le> ?L"
      using member_le_sum_list [of "length (body (rule s))" "map (\<lambda>r. length (body r)) (start_rule # rs)"]
      by force
    with s have "(rule s, dot s, start s, backpointers s)
        \<in> ?R \<times> {0 .. int ?L} \<times> {0 .. int n} \<times> ?B"
      unfolding universe_def by auto
    then have "?f (rule s, dot s, start s, backpointers s)
        \<in> ?f ` (?R \<times> {0 .. int ?L} \<times> {0 .. int n} \<times> ?B)"
      by (rule imageI)
    then show "s \<in> ?f ` (?R \<times> {0 .. int ?L} \<times> {0 .. int n} \<times> ?B)" by simp
  qed
  with fin show ?thesis by (rule finite_surj)
qed

lemma ok_state_universe:
  assumes "ok_state U rs words ch e j s" "e \<le> n"
  shows "s \<in> universe rs n"
proof -
  from assms(1) have ch: "chain (start s) (backpointers s) (int e)" and st: "0 \<le> start s"
    by (simp_all add: ok_state_def)
  have "fst bp \<in> {0 .. int n} \<and> snd bp \<in> {0 .. int n}" if "bp \<in> set (backpointers s)" for bp
    using chain_bounds [OF ch that] st assms(2) by auto
  then have "set (backpointers s) \<subseteq> {0 .. int n} \<times> {0 .. int n}"
    by (auto simp: mem_Times_iff)
  with assms chain_le [OF ch] show ?thesis
    by (auto simp: universe_def ok_state_def)
qed

lemma column_bound:
  assumes "inv U rs words ch" "columns_distinct ch" "e < length ch"
  shows "length (ch ! e) \<le> card (universe rs (length words))"
proof -
  from assms(1,3) have e: "e \<le> length words" by (simp add: inv_def)
  have "set (ch ! e) \<subseteq> universe rs (length words)"
  proof
    fix s assume "s \<in> set (ch ! e)"
    then obtain j where "j < length (ch ! e)" "ch ! e ! j = s" by (auto simp: in_set_conv_nth)
    with assms(1,3) have "ok_state U rs words ch e j s" by (auto simp: inv_def)
    then show "s \<in> universe rs (length words)" using e by (rule ok_state_universe)
  qed
  then have "card (set (ch ! e)) \<le> card (universe rs (length words))"
    by (rule card_mono [OF finite_universe])
  moreover from assms(2,3) have "distinct (ch ! e)" by (simp add: columns_distinct_def)
  ultimately show ?thesis by (simp add: distinct_card)
qed

lemma process_column_total:
  assumes "inv U rs words ch" "columns_distinct ch" "i < length ch"
  shows "\<exists>ch'. process_column U rs words ch i j = Some (Inr ch') \<and> inv U rs words ch'
           \<and> columns_distinct ch' \<and> grows ch ch'"
  using assms
proof (induction "card (universe rs (length words)) - j" arbitrary: ch j rule: less_induct)
  case less
  have get: "getitem ch (int i) = Inr (ch ! i)" using less.prems(3) by (rule getitem_nat)
  show ?case
  proof (cases "j < length (ch ! i)")
    case False
    with get less.prems show ?thesis
      by (simp add: process_column.simps [of U rs words ch i j] grows_refl)
  next
    case True
    from inv_process_state [OF less.prems True] obtain ch1 where
      ch1: "process_state U rs words ch i (ch ! i ! j) = Inr ch1" and I1: "inv U rs words ch1"
      and D1: "columns_distinct ch1" and g1: "grows ch ch1" by blast
    have i1: "i < length ch1" using g1 less.prems(3) by (simp add: grows_length)
    from column_bound [OF less.prems] True
    have "card (universe rs (length words)) - Suc j < card (universe rs (length words)) - j"
      by simp
    from less.hyps [OF this I1 D1 i1] obtain ch' where
      "process_column U rs words ch1 i (Suc j) = Some (Inr ch')" "inv U rs words ch'"
      "columns_distinct ch'" "grows ch1 ch'" by blast
    with get True ch1 grows_trans [OF g1] show ?thesis
      by (simp add: process_column.simps [of U rs words ch i j])
  qed
qed

lemma process_columns_total:
  assumes "inv U rs words ch" "columns_distinct ch" "\<forall>i \<in> set is. i < length ch"
  shows "\<exists>ch'. process_columns U rs words ch is = Some (Inr ch') \<and> inv U rs words ch'
           \<and> columns_distinct ch' \<and> grows ch ch'"
  using assms
proof (induction "is" arbitrary: ch)
  case Nil
  then show ?case by (simp add: grows_refl)
next
  case (Cons i "is")
  from Cons.prems(3) have i: "i < length ch" by simp
  from process_column_total [OF Cons.prems(1,2) i, of 0] obtain ch1 where
    ch1: "process_column U rs words ch i 0 = Some (Inr ch1)" and I1: "inv U rs words ch1"
    and D1: "columns_distinct ch1" and g1: "grows ch ch1" by blast
  have "\<forall>i \<in> set is. i < length ch1"
    using Cons.prems(3) g1 by (simp add: grows_length)
  from Cons.IH [OF I1 D1 this] obtain ch' where
    "process_columns U rs words ch1 is = Some (Inr ch')" "inv U rs words ch'"
    "columns_distinct ch'" "grows ch1 ch'" by blast
  with ch1 grows_trans [OF g1] show ?case by auto
qed

lemma inv_initial:
  "inv U rs words ((replicate (length words + 1) []) [0 := [State start_rule 0 0 []]])"
  by (auto simp: inv_def ok_state_def nth_list_update nth_Cons split: nat.splits)

lemma build_chart_total:
  "\<exists>ch. build_chart U rs words = Some (Inr ch) \<and> inv U rs words ch \<and> columns_distinct ch"
proof -
  let ?ch0 = "(replicate (length words + 1) []) [0 := [State start_rule 0 0 []]]"
  have add: "add_to_chart (replicate (length words + 1) []) (State start_rule 0 0 []) 0 = Inr ?ch0"
    by (simp add: add_to_chart_def slot_def)
  have D: "columns_distinct ?ch0"
    by (auto simp: columns_distinct_def dest!: subsetD [OF set_update_subset_insert])
  have "\<forall>i \<in> set [0 ..< length words + 1]. i < length ?ch0" by simp
  from process_columns_total [OF inv_initial D this] add show ?thesis
    by (auto simp: build_chart_def)
qed

lemma ok_state_placed:
  assumes "ok_state U rs words ch e j s"
  shows "placed e s"
proof -
  from assms have len: "int (length (backpointers s)) = dot s"
    and ch: "chain (start s) (backpointers s) (int e)"
    by (simp_all add: ok_state_def)
  show ?thesis
  proof (cases "backpointers s" rule: rev_cases)
    case Nil
    with len ch show ?thesis by (simp add: placed_def)
  next
    case (snoc bs bp)
    with len ch show ?thesis by (simp add: placed_def chain_append)
  qed
qed

lemma inv_all_placed:
  assumes "inv U rs words ch"
  shows "all_placed ch"
  unfolding all_placed_def
proof (intro allI impI ballI)
  fix e s assume e: "e < length ch" and "s \<in> set (ch ! e)"
  then obtain j where "j < length (ch ! e)" "ch ! e ! j = s" by (auto simp: in_set_conv_nth)
  with assms e have "ok_state U rs words ch e j s" by (auto simp: inv_def)
  then show "placed e s" by (rule ok_state_placed)
qed

lemma add_to_chart_present:
  "slot ch p = Some c \<Longrightarrow> st \<in> set (ch ! c) \<Longrightarrow> add_to_chart ch st p = Inr ch"
  by (simp add: add_to_chart_def)

subsection \<open>The claims on the columns\<close>

text \<open>
  C3: no column ever holds a state twice.  \<^verbatim>\<open>_add_to_chart\<close> leaves the chart as it is
  when the column holds an equal state already; insertion, \<^verbatim>\<open>predict\<close>, \<^verbatim>\<open>scan\<close> and
  \<^verbatim>\<open>complete\<close> keep the columns free of duplicates; and the chart that a parse builds
  (for any rules and any tokens the building ends, without an error) has no duplicates.
\<close>

theorem no_duplicate_states:
  "(columns_distinct ch \<longrightarrow>
      (slot ch p = Some c \<and> st \<in> set (ch ! c) \<longrightarrow> add_to_chart ch st p = Inr ch)
      \<and> (add_to_chart ch st p = Inr cha \<longrightarrow> columns_distinct cha)
      \<and> (predict U rs ch st p = Inr chb \<longrightarrow> columns_distinct chb)
      \<and> (scan ch st p words = Inr chc \<longrightarrow> columns_distinct chc)
      \<and> (complete ch st p = Inr chd \<longrightarrow> columns_distinct chd))
   \<and> (\<exists>ch'. build_chart U rs words = Some (Inr ch') \<and> columns_distinct ch')"
  using build_chart_total [of U rs words]
  by (auto dest: distinct_add distinct_predict distinct_scan distinct_complete
      simp: add_to_chart_present)

theorem no_duplicate_states_witness:
  "columns_distinct [[State start_rule 0 0 []], []]
   \<and> slot [[State start_rule 0 0 []], []] 0 = Some 0
   \<and> State start_rule 0 0 [] \<in> set ([[State start_rule 0 0 []], []] ! 0)
   \<and> add_to_chart [[State start_rule 0 0 []], []] (State start_rule 0 0 []) 0
       = Inr [[State start_rule 0 0 []], []]
   \<and> predict (\<lambda>_. False) [Rule [83] [[97]]] [[State start_rule 0 0 []], []]
        (State start_rule 0 0 []) 0
       = Inr [[State start_rule 0 0 [], State (Rule [83] [[97]]) 0 0 []], []]
   \<and> columns_distinct [[State start_rule 0 0 [], State (Rule [83] [[97]]) 0 0 []], []]
   \<and> scan [[State start_rule 0 0 []], []] (State start_rule 0 0 []) 0 [[97]]
       = Inr [[State start_rule 0 0 []], []]
   \<and> complete [[State start_rule 0 0 []], []] (State start_rule 0 0 []) 0
       = Inr [[State start_rule 0 0 []], []]
   \<and> (\<exists>ch'. build_chart (\<lambda>_. False) [Rule [83] [[97]]] [[97]] = Some (Inr ch')
         \<and> columns_distinct ch')"
proof -
  let ?st = "State start_rule 0 0 []"
  let ?ch = "[[?st], []]"
  let ?chb = "[[?st, State (Rule [83] [[97]]) 0 0 []], []]"
  have d: "columns_distinct ?ch" by (simp add: columns_distinct_def)
  have s: "slot ?ch 0 = Some 0" "?st \<in> set (?ch ! 0)" by (simp_all add: slot_def)
  have a: "add_to_chart ?ch ?st 0 = Inr ?ch" by (simp add: run_simps)
  have p: "predict (\<lambda>_. False) [Rule [83] [[97]]] ?ch ?st 0 = Inr ?chb" by (simp add: run_simps)
  have sc: "scan ?ch ?st 0 [[97]] = Inr ?ch" by (simp add: run_simps)
  have c: "complete ?ch ?st 0 = Inr ?ch" by (simp add: run_simps)
  from no_duplicate_states [where ch = ?ch and p = 0 and c = 0 and st = ?st and cha = ?ch
      and U = "\<lambda>_. False" and rs = "[Rule [83] [[97]]]" and chb = ?chb and words = "[[97]]"
      and chc = ?ch and chd = ?ch] d s a p sc c
  show ?thesis by simp
qed

text \<open>
  C4: every state of column \<open>e\<close> has as many backpointers as its dot says, starts in \<open>e\<close>
  when its dot is 0, and else has \<open>e\<close> as the end of its last span.  \<^verbatim>\<open>predict\<close>,
  \<^verbatim>\<open>scan\<close> (of a state with one backpointer for each symbol before its dot) and
  \<^verbatim>\<open>complete\<close>, at a position that is not negative, keep this, and it holds in the chart
  that a parse builds.
\<close>

theorem states_placed:
  "(all_placed ch \<and> 0 \<le> p \<longrightarrow>
      (predict U rs ch st p = Inr cha \<longrightarrow> all_placed cha)
      \<and> (int (length (backpointers st)) = dot st \<and> scan ch st p words = Inr chb
           \<longrightarrow> all_placed chb)
      \<and> (complete ch st p = Inr chc \<longrightarrow> all_placed chc))
   \<and> (\<exists>ch'. build_chart U rs words = Some (Inr ch') \<and> all_placed ch')"
  using build_chart_total [of U rs words]
  by (auto dest: placed_predict placed_scan placed_complete inv_all_placed)

theorem states_placed_witness:
  "all_placed [[State start_rule 0 0 [], State (Rule [83] [[97]]) 0 0 []], []] \<and> (0::int) \<le> 0
   \<and> predict (\<lambda>_. False) [Rule [83] [[97]]]
        [[State start_rule 0 0 [], State (Rule [83] [[97]]) 0 0 []], []]
        (State (Rule [83] [[97]]) 0 0 []) 0
       = Inr [[State start_rule 0 0 [], State (Rule [83] [[97]]) 0 0 []], []]
   \<and> int (length (backpointers (State (Rule [83] [[97]]) 0 0 []))) = dot (State (Rule [83] [[97]]) 0 0 [])
   \<and> scan [[State start_rule 0 0 [], State (Rule [83] [[97]]) 0 0 []], []]
        (State (Rule [83] [[97]]) 0 0 []) 0 [[97]]
       = Inr [[State start_rule 0 0 [], State (Rule [83] [[97]]) 0 0 []],
              [State (Rule [83] [[97]]) 1 0 [(0, 1)]]]
   \<and> all_placed [[State start_rule 0 0 [], State (Rule [83] [[97]]) 0 0 []],
              [State (Rule [83] [[97]]) 1 0 [(0, 1)]]]
   \<and> complete [[State start_rule 0 0 [], State (Rule [83] [[97]]) 0 0 []], []]
        (State (Rule [83] [[97]]) 0 0 []) 0
       = Inr [[State start_rule 0 0 [], State (Rule [83] [[97]]) 0 0 []], []]
   \<and> (\<exists>ch'. build_chart (\<lambda>_. False) [Rule [83] [[97]]] [[97]] = Some (Inr ch')
         \<and> all_placed ch')"
proof -
  let ?st = "State (Rule [83] [[97]]) 0 0 []"
  let ?ch = "[[State start_rule 0 0 [], ?st], []]"
  let ?chb = "[[State start_rule 0 0 [], ?st], [State (Rule [83] [[97]]) 1 0 [(0, 1)]]]"
  have pl: "all_placed ?ch" by (simp add: all_placed_def placed_def All_less_Suc)
  have p: "predict (\<lambda>_. False) [Rule [83] [[97]]] ?ch ?st 0 = Inr ?ch" by (simp add: run_simps)
  have l: "int (length (backpointers ?st)) = dot ?st" by simp
  have sc: "scan ?ch ?st 0 [[97]] = Inr ?chb" by (simp add: run_simps)
  have c: "complete ?ch ?st 0 = Inr ?ch" by (simp add: run_simps)
  from states_placed [where ch = ?ch and p = 0 and st = ?st and cha = ?ch
      and U = "\<lambda>_. False" and rs = "[Rule [83] [[97]]]" and chb = ?chb and words = "[[97]]"
      and chc = ?ch] pl p l sc c
  show ?thesis by simp
qed

subsection \<open>What complete adds\<close>

lemma complete_loop_grows: "complete_loop ch st i c k = Inr ch' \<Longrightarrow> grows ch ch'"
proof (erule complete_loop_invariant [where P = "grows ch"])
  show "grows ch ch" by (rule grows_refl)
next
  fix ch1 k ch2
  assume "grows ch ch1"
    "add_to_chart ch1 (advance (ch1 ! c ! k) (start st, i)) i = Inr ch2"
  then show "grows ch ch2" by (blast intro: grows_trans grows_add)
qed

lemma grows_set: "grows ch ch' \<Longrightarrow> e < length ch \<Longrightarrow> set (ch ! e) \<subseteq> set (ch' ! e)"
  by (auto simp: grows_def)

lemma complete_loop_reaches:
  assumes "complete_loop ch st i c k = Inr ch'" "0 \<le> i" "i < int (length ch)" "c < length ch"
    "k \<le> j" "j < length (ch' ! c)" "\<not> is_complete (ch' ! c ! j)"
    "next_symbol (ch' ! c ! j) = Inr (Some (head (rule st)))"
  shows "advance (ch' ! c ! j) (start st, i) \<in> set (ch' ! nat i)"
  using assms
proof (induction ch st i c k rule: complete_loop.induct)
  case (1 ch st i c k)
  note run = "1.prems"(1) [unfolded complete_loop.simps [of ch st i c k]]
  note g = complete_loop_grows [OF "1.prems"(1)]
  show ?case
  proof (cases "k < length (ch ! c)")
    case False
    with run have "ch' = ch" by simp
    with False "1.prems"(5,6) show ?thesis by simp
  next
    case k: True
    have same: "ch' ! c ! k = ch ! c ! k" using grows_nth(1) [OF g "1.prems"(4) k] .
    show ?thesis
    proof (cases "is_complete (ch ! c ! k)")
      case True
      with same "1.prems"(7) have "j \<noteq> k" by auto
      with "1.prems"(5) have j: "Suc k \<le> j" by simp
      from True k run have "complete_loop ch st i c (Suc k) = Inr ch'" by simp
      from "1.IH"(3) [OF k _ this "1.prems"(2,3,4) j "1.prems"(6,7,8)] True show ?thesis by simp
    next
      case inc: False
      from k inc run obtain ns where ns: "next_symbol (ch ! c ! k) = Inr ns"
        by (auto split: sum.splits)
      show ?thesis
      proof (cases "ns = Some (head (rule st))")
        case False
        with same ns "1.prems"(8) have "j \<noteq> k" by auto
        with "1.prems"(5) have j: "Suc k \<le> j" by simp
        from False k inc ns run have "complete_loop ch st i c (Suc k) = Inr ch'" by simp
        from "1.IH"(2) [OF k inc ns False this "1.prems"(2,3,4) j "1.prems"(6,7,8)]
        show ?thesis .
      next
        case True
        with k inc ns run obtain ch1 where
          ch1: "add_to_chart ch (advance (ch ! c ! k) (start st, i)) i = Inr ch1"
          and rest: "complete_loop ch1 st i c (Suc k) = Inr ch'"
          by (auto split: sum.splits)
        have len1: "length ch1 = length ch" using ch1 by (rule add_to_chart_length)
        show ?thesis
        proof (cases "j = k")
          case True
          have "advance (ch ! c ! k) (start st, i) \<in> set (ch1 ! nat i)"
            using ch1 "1.prems"(2,3)
            by (auto simp: add_to_chart_valid split: if_splits)
          moreover have "set (ch1 ! nat i) \<subseteq> set (ch' ! nat i)"
            using complete_loop_grows [OF rest] "1.prems"(2,3) len1 by (intro grows_set) simp_all
          ultimately show ?thesis using True same by auto
        next
          case False
          with "1.prems"(5) have j: "Suc k \<le> j" by simp
          from "1.prems"(3,4) len1 have "i < int (length ch1)" "c < length ch1" by simp_all
          from "1.IH"(1) [OF k inc ns True ch1 rest "1.prems"(2) this j "1.prems"(6,7,8)]
          show ?thesis .
        qed
      qed
    qed
  qed
qed

lemma complete_loop_frame:
  assumes "c < length ch" "0 \<le> i" "i < int (length ch)" "\<forall>s \<in> set (ch ! c). 0 \<le> dot s"
  shows "\<exists>ch'. complete_loop ch st i c k = Inr ch' \<and> grows ch ch'
     \<and> (\<forall>e < length ch. e \<noteq> nat i \<longrightarrow> ch' ! e = ch ! e)
     \<and> (\<forall>x \<in> set (ch' ! nat i). x \<in> set (ch ! nat i) \<or>
           (\<exists>s \<in> set (ch' ! c). \<not> is_complete s
              \<and> next_symbol s = Inr (Some (head (rule st))) \<and> x = advance s (start st, i)))"
proof -
  let ?P = "\<lambda>ch1. grows ch ch1
     \<and> (\<forall>e < length ch. e \<noteq> nat i \<longrightarrow> ch1 ! e = ch ! e)
     \<and> (\<forall>s \<in> set (ch1 ! c). 0 \<le> dot s)
     \<and> (\<forall>x \<in> set (ch1 ! nat i). x \<in> set (ch ! nat i) \<or>
           (\<exists>s \<in> set (ch1 ! c). \<not> is_complete s
              \<and> next_symbol s = Inr (Some (head (rule st))) \<and> x = advance s (start st, i)))"
  have "\<exists>ch'. complete_loop ch st i c k = Inr ch' \<and> ?P ch'"
  proof (rule complete_loop_total)
    show "?P ch" using assms(4) by (simp add: grows_refl)
  next
    fix ch1 k
    assume P: "?P ch1" and k: "k < length (ch1 ! c)" and inc: "\<not> is_complete (ch1 ! c ! k)"
    let ?s = "ch1 ! c ! k"
    let ?new = "advance ?s (start st, i)"
    from P have g: "grows ch ch1" by simp
    have len: "length ch1 = length ch" using g by (rule grows_length)
    from P k have d: "0 \<le> dot ?s" by simp
    have ns: "next_symbol ?s = Inr (Some (body (rule ?s) ! nat (dot ?s)))"
      using d inc by (rule next_symbol_valid)
    have "\<exists>ch2. add_to_chart ch1 ?new i = Inr ch2 \<and> ?P ch2"
      if eq: "next_symbol ?s = Inr (Some (head (rule st)))"
    proof -
      from assms(2,3) len have valid: "0 \<le> i" "i < int (length ch1)" by simp_all
      let ?ch2 = "if ?new \<in> set (ch1 ! nat i) then ch1 else ch1[nat i := ch1 ! nat i @ [?new]]"
      have ch2: "add_to_chart ch1 ?new i = Inr ?ch2" using valid by (rule add_to_chart_valid)
      have g2: "grows ch ?ch2" using g grows_add [OF ch2] by (rule grows_trans)
      have il: "nat i < length ch1" using valid by simp
      have cl: "c < length ch1" using assms(1) len by simp
      have fr: "\<forall>e < length ch. e \<noteq> nat i \<longrightarrow> ?ch2 ! e = ch ! e"
        using P by simp
      have col: "set (?ch2 ! c) \<subseteq> insert ?new (set (ch1 ! c))" "set (ch1 ! c) \<subseteq> set (?ch2 ! c)"
        using il by (auto simp: nth_list_update)
      have dots: "\<forall>s \<in> set (?ch2 ! c). 0 \<le> dot s"
        using col(1) P d by (auto simp: advance_def)
      have "?s \<in> set (ch1 ! c)" using k by simp
      with col(2) have sk: "?s \<in> set (?ch2 ! c)" by (rule_tac subsetD)
      have coli: "set (?ch2 ! nat i) \<subseteq> insert ?new (set (ch1 ! nat i))"
        using il by (auto simp: nth_list_update)
      have "x \<in> set (ch ! nat i) \<or>
           (\<exists>s \<in> set (?ch2 ! c). \<not> is_complete s
              \<and> next_symbol s = Inr (Some (head (rule st))) \<and> x = advance s (start st, i))"
        if "x \<in> set (?ch2 ! nat i)" for x
      proof (cases "x = ?new")
        case True
        with sk inc eq show ?thesis by blast
      next
        case False
        with that coli have "x \<in> set (ch1 ! nat i)" by auto
        with P col(2) show ?thesis by blast
      qed
      with g2 fr dots ch2 show ?thesis by blast
    qed
    with ns show "\<exists>ns. next_symbol ?s = Inr ns \<and>
         (ns = Some (head (rule st)) \<longrightarrow> (\<exists>ch'. add_to_chart ch1 ?new i = Inr ch' \<and> ?P ch'))"
      by auto
  qed
  then show ?thesis by blast
qed

text \<open>
  C5: for a complete state whose start and the position \<open>i\<close> are columns of the chart (the
  dots in the start column not negative), \<^verbatim>\<open>complete\<close> raises nothing, changes column
  \<open>i\<close> only, and only by appending; afterwards column \<open>i\<close> holds what it held before and
  the advanced state \<open>(s.rule, s.dot + 1, s.start, s.backpointers + (state.start, i))\<close> of
  every incomplete state \<open>s\<close> of column \<open>state.start\<close> whose next symbol is the head of the
  completed rule, and nothing else.  When \<open>i\<close> is \<open>state.start\<close> the loop also reads
  the states that it has appended itself.
\<close>

theorem complete_adds_advanced:
  assumes "is_complete st" "0 \<le> start st" "start st < int (length ch)"
    "0 \<le> i" "i < int (length ch)" "\<forall>s \<in> set (ch ! nat (start st)). 0 \<le> dot s"
  shows "\<exists>ch'. complete ch st i = Inr ch' \<and> length ch' = length ch
     \<and> (\<forall>e < length ch. e \<noteq> nat i \<longrightarrow> ch' ! e = ch ! e)
     \<and> (\<exists>new. ch' ! nat i = ch ! nat i @ new)
     \<and> set (ch' ! nat i) = set (ch ! nat i) \<union>
         {advance s (start st, i) | s. s \<in> set (ch' ! nat (start st)) \<and> \<not> is_complete s
            \<and> next_symbol s = Inr (Some (head (rule st)))}"
proof -
  let ?c = "nat (start st)"
  from assms(2,3) have c: "?c < length ch" by simp
  from complete_loop_frame [OF c assms(4,5,6), of st 0] obtain ch' where
    run: "complete_loop ch st i ?c 0 = Inr ch'" and g: "grows ch ch'"
    and fr: "\<forall>e < length ch. e \<noteq> nat i \<longrightarrow> ch' ! e = ch ! e"
    and snd: "\<forall>x \<in> set (ch' ! nat i). x \<in> set (ch ! nat i) \<or>
           (\<exists>s \<in> set (ch' ! ?c). \<not> is_complete s
              \<and> next_symbol s = Inr (Some (head (rule st))) \<and> x = advance s (start st, i))"
    by blast
  have il: "nat i < length ch" using assms(4,5) by simp
  have cmp: "complete ch st i = Inr ch'"
    using assms(1,2,3) run by (simp add: complete_def slot_valid)
  have ext: "\<exists>new. ch' ! nat i = ch ! nat i @ new" using g il by (simp add: grows_def)
  have "advance s (start st, i) \<in> set (ch' ! nat i)"
    if "s \<in> set (ch' ! ?c)" "\<not> is_complete s" "next_symbol s = Inr (Some (head (rule st)))" for s
  proof -
    from that(1) obtain j where j: "j < length (ch' ! ?c)" "ch' ! ?c ! j = s"
      by (auto simp: in_set_conv_nth)
    from complete_loop_reaches [OF run assms(4,5) c le0 j(1)] that(2,3) j(2)
    show ?thesis by simp
  qed
  with snd grows_set [OF g il]
  have "set (ch' ! nat i) = set (ch ! nat i) \<union>
         {advance s (start st, i) | s. s \<in> set (ch' ! ?c) \<and> \<not> is_complete s
            \<and> next_symbol s = Inr (Some (head (rule st)))}"
    by blast
  with cmp grows_length [OF g] fr ext show ?thesis by blast
qed

theorem complete_adds_advanced_witness:
  "is_complete (State (Rule [65] [[121]]) 1 0 [(0, 1)])
   \<and> 0 \<le> start (State (Rule [65] [[121]]) 1 0 [(0, 1)])
   \<and> start (State (Rule [65] [[121]]) 1 0 [(0, 1)])
       < int (length [[State (Rule [83] [[65], [120]]) 0 0 []],
                      [State (Rule [65] [[121]]) 1 0 [(0, 1)]]])
   \<and> (0::int) \<le> 1
   \<and> 1 < int (length [[State (Rule [83] [[65], [120]]) 0 0 []],
                       [State (Rule [65] [[121]]) 1 0 [(0, 1)]]])
   \<and> 0 \<le> dot (State (Rule [83] [[65], [120]]) 0 0 [])
   \<and> complete [[State (Rule [83] [[65], [120]]) 0 0 []],
                [State (Rule [65] [[121]]) 1 0 [(0, 1)]]]
        (State (Rule [65] [[121]]) 1 0 [(0, 1)]) 1
       = Inr [[State (Rule [83] [[65], [120]]) 0 0 []],
              [State (Rule [65] [[121]]) 1 0 [(0, 1)],
               State (Rule [83] [[65], [120]]) 1 0 [(0, 1)]]]
   \<and> (\<exists>ch'. complete [[State (Rule [83] [[65], [120]]) 0 0 []],
                       [State (Rule [65] [[121]]) 1 0 [(0, 1)]]]
               (State (Rule [65] [[121]]) 1 0 [(0, 1)]) 1 = Inr ch'
         \<and> length ch' = 2)"
proof -
  let ?st = "State (Rule [65] [[121]]) 1 0 [(0, 1)]"
  let ?ch = "[[State (Rule [83] [[65], [120]]) 0 0 []], [?st]]"
  have h: "is_complete ?st" "0 \<le> start ?st" "start ?st < int (length ?ch)" "(0::int) \<le> 1"
    "1 < int (length ?ch)" "\<forall>s \<in> set (?ch ! nat (start ?st)). 0 \<le> dot s"
    by (simp_all add: is_complete_def)
  have run: "complete ?ch ?st 1
       = Inr [[State (Rule [83] [[65], [120]]) 0 0 []],
              [?st, State (Rule [83] [[65], [120]]) 1 0 [(0, 1)]]]"
    by (simp add: run_simps)
  from complete_adds_advanced [OF h] have "\<exists>ch'. complete ?ch ?st 1 = Inr ch' \<and> length ch' = 2"
    by auto
  with h(1-5) run show ?thesis by simp
qed

subsection \<open>Spans of the sentence\<close>

lemma span_same: "span words a a = []"
  by (simp add: span_def)

lemma span_single: "0 \<le> a \<Longrightarrow> a < int (length words) \<Longrightarrow> span words a (a + 1) = [words ! nat a]"
  by (simp add: span_def take_Suc_conv_app_nth)

lemma span_append:
  assumes "0 \<le> a" "a \<le> b" "b \<le> c"
  shows "span words a b @ span words b c = span words a c"
proof -
  have "nat (c - a) = nat (b - a) + nat (c - b)" using assms by simp
  moreover have "nat b = nat a + nat (b - a)" using assms by simp
  ultimately show ?thesis
    by (simp add: span_def take_add add.commute)
qed

lemma span_all: "span words 0 (int (length words)) = words"
  by (simp add: span_def)

subsection \<open>The place of a state\<close>

lemma sum_take_mono:
  "e1 \<le> e2 \<Longrightarrow> sum_list (map length (take e1 ch)) \<le> sum_list (map length (take e2 (ch :: chart)))"
proof -
  assume "e1 \<le> e2"
  then obtain d where "e2 = e1 + d" by (auto simp: le_iff_add)
  then show ?thesis by (simp add: take_add)
qed

lemma rank_less:
  assumes "e' < length ch" "j' < length (ch ! e')" "e' < e \<or> (e' = e \<and> j' < j)"
  shows "rank ch e' j' < rank ch e j"
proof (cases "e' < e")
  case True
  have "rank ch e' j' < sum_list (map length (take (Suc e') ch))"
    using assms(1,2) by (simp add: rank_def take_Suc_conv_app_nth)
  also have "\<dots> \<le> sum_list (map length (take e ch))"
    using True by (intro sum_take_mono) simp
  finally show ?thesis by (simp add: rank_def)
next
  case False
  with assms(3) show ?thesis by (simp add: rank_def)
qed

lemma rank_less_size:
  assumes "e < length ch" "j < length (ch ! e)"
  shows "rank ch e j < chart_size ch"
proof -
  have "rank ch e j < sum_list (map length (take (Suc e) ch))"
    using assms by (simp add: rank_def take_Suc_conv_app_nth)
  also have "\<dots> \<le> sum_list (map length (take (length ch) ch))"
    using assms(1) by (intro sum_take_mono) simp
  finally show ?thesis by (simp add: chart_size_def)
qed

subsection \<open>The first matching state\<close>

lemma find_first:
  assumes "i < length xs" "P (xs ! i)"
  obtains k where "k \<le> i" "find P xs = Some (xs ! k)" "P (xs ! k)"
proof -
  from assms have "xs ! i \<in> set xs" by simp
  with assms(2) have "find P xs \<noteq> None" by (auto simp: find_None_iff)
  then obtain x where x: "find P xs = Some x" by auto
  then obtain k where k: "k < length xs" "P (xs ! k)" "x = xs ! k" "\<forall>m < k. \<not> P (xs ! m)"
    by (auto simp: find_Some_iff)
  with assms(2) have "k \<le> i" by (meson not_le_imp_less)
  with x k that show ?thesis by simp
qed

subsection \<open>The tree of a state of the chart\<close>

lemma build_children_nonterminal:
  "getitem (backpointers st) (int i) = Inr (a, b) \<Longrightarrow> isupper U c \<Longrightarrow>
   getitem ch b = Inr col \<Longrightarrow> find (matches (c # r) a) col = Some s' \<Longrightarrow>
   rec s' b = Some (Inr t) \<Longrightarrow>
   build_children U rec ch st words ((i, c # r) # rest) cs
     = build_children U rec ch st words rest (cs @ [t])"
  by simp

lemma build_children_terminal:
  "getitem (backpointers st) (int i) = Inr (a, b) \<Longrightarrow> \<not> isupper U c \<Longrightarrow>
   getitem words a = Inr w \<Longrightarrow>
   build_children U rec ch st words ((i, c # r) # rest) cs
     = build_children U rec ch st words rest (cs @ [ParseTree w []])"
  by simp

lemma body_not_gamma:
  assumes "ok_state U rs words ch e j s" "gamma_free rs" "k < length (body (rule s))"
  shows "body (rule s) ! k \<noteq> gamma"
proof (cases "rule s = start_rule")
  case True
  with assms(3) show ?thesis by (simp add: start_rule_def gamma_def)
next
  case False
  with assms(1) have "rule s \<in> set rs" by (simp add: ok_state_def)
  with assms(2) have "gamma \<notin> set (body (rule s))" by (simp add: gamma_free_def)
  with assms(3) show ?thesis by (metis nth_mem)
qed

lemma terminal_leaves_token:
  "\<not> is_nonterminal U (Some w) \<Longrightarrow> terminal_leaves U (ParseTree w []) = [w]"
  by (simp add: terminal_leaves_def)

lemma terminal_leaves_node:
  "cs \<noteq> [] \<Longrightarrow> terminal_leaves U (ParseTree h cs) = concat (map (terminal_leaves U) cs)"
  by (simp add: terminal_leaves_def [abs_def] filter_concat comp_def)

lemma build_children_ok:
  assumes ok: "ok_state U rs words ch e j s" and gf: "gamma_free rs" and e: "e < length ch"
    and full: "length (backpointers s) = length (body (rule s))"
    and rec: "\<And>e' j' pos. e' < length ch \<Longrightarrow> j' < length (ch ! e') \<Longrightarrow>
       e' < e \<or> (e' = e \<and> j' < j) \<Longrightarrow> is_complete (ch ! e' ! j') \<Longrightarrow>
       \<exists>t. rec (ch ! e' ! j') pos = Some (Inr t)
          \<and> terminal_leaves U t = span words (start (ch ! e' ! j')) (int e')"
    and k: "k \<le> length (body (rule s))" and a: "0 \<le> a"
    and ch: "chain a (drop k (backpointers s)) (int e)"
  shows "\<exists>ts. build_children U rec ch s words (enumerate k (drop k (body (rule s)))) cs
            = Some (Inr (cs @ ts))
          \<and> length ts = length (body (rule s)) - k
          \<and> concat (map (terminal_leaves U) ts) = span words a (int e)"
  using k a ch
proof (induction "length (body (rule s)) - k" arbitrary: k a cs)
  case 0
  then have "drop k (body (rule s)) = []" "drop k (backpointers s) = []"
    using full by simp_all
  with "0.prems"(3) show ?case by (simp add: span_same)
next
  case (Suc m)
  let ?x = "body (rule s) ! k"
  let ?bp = "backpointers s ! k"
  from Suc.hyps(2) have k: "k < length (body (rule s))" by simp
  with full have kb: "k < length (backpointers s)" by simp
  have db: "drop k (body (rule s)) = ?x # drop (Suc k) (body (rule s))"
    using k by (simp add: Cons_nth_drop_Suc)
  have dp: "drop k (backpointers s) = ?bp # drop (Suc k) (backpointers s)"
    using kb by (simp add: Cons_nth_drop_Suc)
  from Suc.prems(3) dp have c: "fst ?bp = a" "a \<le> snd ?bp"
    "chain (snd ?bp) (drop (Suc k) (backpointers s)) (int e)" by simp_all
  have be: "snd ?bp \<le> int e" using c(3) by (rule chain_le)
  have get: "getitem (backpointers s) (int k) = Inr (a, snd ?bp)"
    using kb c(1) by (simp add: getitem_nat prod_eq_iff)
  from ok kb have child: "child_ok U words ch e j ?x ?bp" by (simp add: ok_state_def)
  have m: "m = length (body (rule s)) - Suc k" using Suc.hyps(2) by simp
  have k': "Suc k \<le> length (body (rule s))" using k by simp
  have a': "0 \<le> snd ?bp" using Suc.prems(2) c(2) by simp
  have "\<exists>t. build_children U rec ch s words ((k, ?x) # enumerate (Suc k) (drop (Suc k) (body (rule s)))) cs
           = build_children U rec ch s words (enumerate (Suc k) (drop (Suc k) (body (rule s)))) (cs @ [t])
         \<and> terminal_leaves U t = span words a (snd ?bp)"
  proof (cases "is_nonterminal U (Some ?x)")
    case True
    then obtain c0 r where x: "?x = c0 # r" and up: "isupper U c0"
      by (cases ?x) (auto simp: is_nonterminal_def)
    from child True have "found_before ch e j ?x ?bp" by (simp add: child_ok_def)
    then obtain j' where j': "nat (snd ?bp) \<le> e" "j' < length (ch ! nat (snd ?bp))"
      "matches ?x (fst ?bp) (ch ! nat (snd ?bp) ! j')" "nat (snd ?bp) < e \<or> j' < j"
      by (auto simp: found_before_def)
    let ?col = "ch ! nat (snd ?bp)"
    from find_first [OF j'(2), of "matches ?x a"] j'(3) c(1)
    obtain i where i: "i \<le> j'" "find (matches ?x a) ?col = Some (?col ! i)"
      "matches ?x a (?col ! i)" by metis
    have bl: "nat (snd ?bp) < length ch" using j'(1) e by simp
    have gc: "getitem ch (snd ?bp) = Inr ?col"
      using a' bl by (simp add: getitem_valid)
    have il: "i < length ?col" using i(1) j'(2) by simp
    have before: "nat (snd ?bp) < e \<or> (nat (snd ?bp) = e \<and> i < j)"
      using j'(1,4) i(1) by auto
    from i(3) have comp: "is_complete (?col ! i)" and st: "start (?col ! i) = a"
      by (simp_all add: matches_def)
    from rec [OF bl il before comp, of "snd ?bp"] obtain t where
      t: "rec (?col ! i) (snd ?bp) = Some (Inr t)"
      "terminal_leaves U t = span words (start (?col ! i)) (int (nat (snd ?bp)))" by blast
    from build_children_nonterminal [where rec = rec, OF get up gc i(2) [unfolded x] t(1)]
      t(2) st a' x
    show ?thesis by auto
  next
    case False
    from body_not_gamma [OF ok gf k] child False
    have tm: "?x \<noteq> []" "snd ?bp = fst ?bp + 1" "fst ?bp < int (length words)"
      "words ! nat (fst ?bp) = ?x"
      by (simp_all add: child_ok_def)
    then obtain c0 r where x: "?x = c0 # r" by (cases ?x) auto
    with False have up: "\<not> isupper U c0" by (simp add: is_nonterminal_def)
    have gw: "getitem words a = Inr (words ! nat a)"
      using Suc.prems(2) tm(3) c(1) by (simp add: getitem_valid)
    have "terminal_leaves U (ParseTree (words ! nat a) []) = span words a (snd ?bp)"
      using False tm c(1) Suc.prems(2) by (simp add: terminal_leaves_token span_single)
    with build_children_terminal [where rec = rec, OF get up gw] x show ?thesis by metis
  qed
  then obtain t where step: "build_children U rec ch s words
        ((k, ?x) # enumerate (Suc k) (drop (Suc k) (body (rule s)))) cs
      = build_children U rec ch s words (enumerate (Suc k) (drop (Suc k) (body (rule s)))) (cs @ [t])"
    and lt: "terminal_leaves U t = span words a (snd ?bp)" by blast
  from Suc.hyps(1) [OF m k' a' c(3), of "cs @ [t]"] obtain ts where
    ts: "build_children U rec ch s words (enumerate (Suc k) (drop (Suc k) (body (rule s)))) (cs @ [t])
           = Some (Inr ((cs @ [t]) @ ts))"
    "length ts = length (body (rule s)) - Suc k"
    "concat (map (terminal_leaves U) ts) = span words (snd ?bp) (int e)" by blast
  have "build_children U rec ch s words (enumerate k (drop k (body (rule s)))) cs
      = Some (Inr (cs @ (t # ts)))"
    using step ts(1) by (simp add: db)
  moreover have "length (t # ts) = length (body (rule s)) - k" using ts(2) k by simp
  moreover have "concat (map (terminal_leaves U) (t # ts)) = span words a (int e)"
    using lt ts(3) span_append [OF Suc.prems(2) c(2) be] by simp
  ultimately show ?case by blast
qed

lemma build_tree_ok:
  assumes I: "inv U rs words ch" and gf: "gamma_free rs"
  shows "e < length ch \<Longrightarrow> j < length (ch ! e) \<Longrightarrow> is_complete (ch ! e ! j) \<Longrightarrow>
    rank ch e j < d \<Longrightarrow>
    \<exists>t. build_tree U d ch words (ch ! e ! j) pos = Some (Inr t)
       \<and> terminal_leaves U t = span words (start (ch ! e ! j)) (int e)"
proof (induction d arbitrary: e j pos)
  case 0
  then show ?case by simp
next
  case (Suc d)
  let ?s = "ch ! e ! j"
  from I Suc.prems(1,2) have ok: "ok_state U rs words ch e j ?s" by (simp add: inv_def)
  from ok Suc.prems(3) have full: "length (backpointers ?s) = length (body (rule ?s))"
    by (simp add: ok_state_def is_complete_def)
  from ok have a: "0 \<le> start ?s" and ch: "chain (start ?s) (backpointers ?s) (int e)"
    by (simp_all add: ok_state_def)
  show ?case
  proof (cases "body (rule ?s) = []")
    case True
    with ok have "is_nonterminal U (Some (head (rule ?s)))"
      by (auto simp: ok_state_def start_rule_def)
    then have "terminal_leaves U (ParseTree (head (rule ?s)) []) = []"
      by (simp add: terminal_leaves_def)
    moreover from True full ch have "start ?s = int e" by simp
    ultimately show ?thesis using True by (simp add: span_same)
  next
    case False
    have "\<exists>ts. build_children U (build_tree U d ch words) ch ?s words
            (enumerate 0 (drop 0 (body (rule ?s)))) [] = Some (Inr ([] @ ts))
          \<and> length ts = length (body (rule ?s)) - 0
          \<and> concat (map (terminal_leaves U) ts) = span words (start ?s) (int e)"
      using ok gf Suc.prems(1) full
    proof (rule build_children_ok)
      fix e' j' pos'
      assume "e' < length ch" "j' < length (ch ! e')" "e' < e \<or> (e' = e \<and> j' < j)"
        "is_complete (ch ! e' ! j')"
      moreover from rank_less [OF this(1,2,3)] Suc.prems(4) have "rank ch e' j' < d" by simp
      ultimately show "\<exists>t. build_tree U d ch words (ch ! e' ! j') pos' = Some (Inr t)
          \<and> terminal_leaves U t = span words (start (ch ! e' ! j')) (int e')"
        by (intro Suc.IH)
    next
      show "0 \<le> length (body (rule ?s))" by simp
      show "0 \<le> start ?s" by (rule a)
      show "chain (start ?s) (drop 0 (backpointers ?s)) (int e)" using ch by simp
    qed
    then obtain ts where
      ts: "build_children U (build_tree U d ch words) ch ?s words
            (enumerate 0 (body (rule ?s))) [] = Some (Inr ts)"
      "length ts = length (body (rule ?s))"
      "concat (map (terminal_leaves U) ts) = span words (start ?s) (int e)" by auto
    from ts(2) False have "ts \<noteq> []" by auto
    with ts(1,3) False show ?thesis by (simp add: terminal_leaves_node)
  qed
qed

lemma build_children_mono:
  assumes "\<And>s e r. rec s e = Some r \<Longrightarrow> rec' s e = Some r"
  shows "build_children U rec ch st words xs cs = Some r \<Longrightarrow>
         build_children U rec' ch st words xs cs = Some r"
proof (induction xs arbitrary: cs)
  case Nil
  then show ?case by simp
next
  case (Cons x xs)
  obtain i symb where x: "x = (i, symb)" by (cases x)
  from Cons.prems show ?case
    unfolding x
    by (auto split: sum.splits prod.splits list.splits if_splits option.splits
        dest: assms intro: Cons.IH)
      (auto dest!: assms intro: Cons.IH)
qed

lemma build_tree_mono:
  "build_tree U d ch words s pos = Some r \<Longrightarrow> build_tree U (Suc d) ch words s pos = Some r"
proof (induction d arbitrary: s pos r)
  case 0
  then show ?case by simp
next
  case (Suc d)
  show ?case
  proof (cases "body (rule s) = []")
    case True
    with Suc.prems show ?thesis by simp
  next
    case False
    with Suc.prems obtain r0 where
      r0: "build_children U (build_tree U d ch words) ch s words
             (enumerate 0 (body (rule s))) [] = Some r0"
      by (auto split: option.splits)
    have "build_children U (build_tree U (Suc d) ch words) ch s words
             (enumerate 0 (body (rule s))) [] = Some r0"
      using _ r0 by (rule build_children_mono) (rule Suc.IH)
    with r0 Suc.prems False show ?thesis by simp
  qed
qed

lemma build_tree_mono_le:
  "d \<le> d' \<Longrightarrow> build_tree U d ch words s pos = Some r \<Longrightarrow> build_tree U d' ch words s pos = Some r"
  by (induction d' rule: dec_induct) (auto dest: build_tree_mono)

subsection \<open>The outcome of parse\<close>

lemma accepting_start_rule:
  assumes "ok_state U rs words ch e j s"
  shows "accepting s = (rule s = start_rule \<and> is_complete s \<and> start s = 0)"
proof (cases "rule s = start_rule")
  case True
  then show ?thesis by (simp add: accepting_def start_rule_def)
next
  case False
  with assms have "is_nonterminal U (Some (head (rule s)))" by (simp add: ok_state_def)
  then have "head (rule s) \<noteq> gamma"
    by (auto simp: gamma_def is_nonterminal_def isupper_def)
  with False show ?thesis by (simp add: accepting_def)
qed

lemma find_accepting:
  assumes "inv U rs words ch" "e < length ch"
  shows "(find accepting (ch ! e) = None)
    = (\<not> (\<exists>st \<in> set (ch ! e). rule st = start_rule \<and> is_complete st \<and> start st = 0))"
proof -
  have "accepting s = (rule s = start_rule \<and> is_complete s \<and> start s = 0)"
    if "s \<in> set (ch ! e)" for s
  proof -
    from that obtain j where "j < length (ch ! e)" "ch ! e ! j = s"
      by (auto simp: in_set_conv_nth)
    with assms have "ok_state U rs words ch e j s" by (auto simp: inv_def)
    then show ?thesis by (rule accepting_start_rule)
  qed
  then show ?thesis by (auto simp: find_None_iff)
qed

lemma s_state_tree:
  assumes I: "inv U rs words ch" and gf: "gamma_free rs"
    and f: "find s_state (ch ! length words) = Some s" and d: "chart_size ch < d"
  shows "\<exists>t. build_tree U d ch words s pos = Some (Inr t) \<and> terminal_leaves U t = words"
proof -
  let ?n = "length words"
  from I have n: "?n < length ch" by (simp add: inv_def)
  from f obtain j where j: "j < length (ch ! ?n)" "s = ch ! ?n ! j" "s_state s"
    by (auto simp: find_Some_iff)
  from j(2,3) have c: "is_complete (ch ! ?n ! j)" and st: "start (ch ! ?n ! j) = 0"
    by (simp_all add: s_state_def)
  from rank_less_size [OF n j(1)] d have "rank ch ?n j < d" by simp
  from build_tree_ok [OF I gf n j(1) c this, of pos] j(2) st show ?thesis
    by (simp add: span_all)
qed

lemma inv_last_column: "inv U rs words ch \<Longrightarrow> getitem ch (int (length words)) = Inr (ch ! length words)"
  by (simp add: inv_def getitem_nat)

text \<open>
  C1, for rules in whose bodies the reserved symbol of the start rule does not occur: the
  chart of a parse is always built, with one column more than there are tokens, and given
  enough depth for the recursion of \<^verbatim>\<open>_build_tree\<close>, \<^verbatim>\<open>parse\<close> returns: rejection
  without a tree when the last column holds no complete state of the start rule that
  starts at 0; else acceptance, with the tree built from the first state of the last column
  that is complete, has the head \<open>S\<close>, starts at 0 and has a backpointer, and without a tree
  when the column holds no such state.
\<close>

theorem parse_accepts:
  assumes "gamma_free (rules p)"
  shows "\<exists>ch. build_chart U (rules p) (tokens W sentence) = Some (Inr ch)
     \<and> length ch = length (tokens W sentence) + 1
     \<and> (\<forall>depth. chart_size ch < depth \<longrightarrow>
         (if \<exists>st \<in> set (ch ! length (tokens W sentence)).
               rule st = start_rule \<and> is_complete st \<and> start st = 0
          then (case find s_state (ch ! length (tokens W sentence)) of
                  None \<Rightarrow>
                    parse U W depth p sentence = Some (Inr ((True, None), p\<lparr>chart := ch\<rparr>))
                | Some s \<Rightarrow>
                    (\<exists>t. build_tree U depth ch (tokens W sentence) s
                            (int (length (tokens W sentence))) = Some (Inr t)
                       \<and> parse U W depth p sentence
                           = Some (Inr ((True, Some t), p\<lparr>chart := ch\<rparr>))))
          else parse U W depth p sentence = Some (Inr ((False, None), p\<lparr>chart := ch\<rparr>))))"
proof -
  let ?w = "tokens W sentence"
  from build_chart_total [of U "rules p" ?w] obtain ch where
    bc: "build_chart U (rules p) ?w = Some (Inr ch)" and I: "inv U (rules p) ?w ch" by blast
  from I have len: "length ch = length ?w + 1" by (simp add: inv_def)
  then have n: "length ?w < length ch" by simp
  note col = inv_last_column [OF I]
  note acc = find_accepting [OF I n]
  have "if \<exists>st \<in> set (ch ! length ?w). rule st = start_rule \<and> is_complete st \<and> start st = 0
        then (case find s_state (ch ! length ?w) of
                None \<Rightarrow> parse U W depth p sentence = Some (Inr ((True, None), p\<lparr>chart := ch\<rparr>))
              | Some s \<Rightarrow>
                  (\<exists>t. build_tree U depth ch ?w s (int (length ?w)) = Some (Inr t)
                     \<and> parse U W depth p sentence
                         = Some (Inr ((True, Some t), p\<lparr>chart := ch\<rparr>))))
        else parse U W depth p sentence = Some (Inr ((False, None), p\<lparr>chart := ch\<rparr>))"
    if d: "chart_size ch < depth" for depth
  proof (cases "find accepting (ch ! length ?w)")
    case None
    with acc have no: "\<not> (\<exists>st \<in> set (ch ! length ?w).
        rule st = start_rule \<and> is_complete st \<and> start st = 0)" by simp
    have "parse U W depth p sentence = Some (Inr ((False, None), p\<lparr>chart := ch\<rparr>))"
      using None bc col by (simp add: parse_def result_def)
    then show ?thesis unfolding if_not_P [OF no] .
  next
    case (Some a)
    with acc have yes: "\<exists>st \<in> set (ch ! length ?w).
        rule st = start_rule \<and> is_complete st \<and> start st = 0" by auto
    have "case find s_state (ch ! length ?w) of
            None \<Rightarrow> parse U W depth p sentence = Some (Inr ((True, None), p\<lparr>chart := ch\<rparr>))
          | Some s \<Rightarrow>
              (\<exists>t. build_tree U depth ch ?w s (int (length ?w)) = Some (Inr t)
                 \<and> parse U W depth p sentence
                     = Some (Inr ((True, Some t), p\<lparr>chart := ch\<rparr>)))"
    proof (cases "find s_state (ch ! length ?w)")
      case None
      with Some bc col show ?thesis by (simp add: parse_def result_def)
    next
      case s: (Some s)
      from s_state_tree [OF I assms s d, of "int (length ?w)"] obtain t where
        "build_tree U depth ch ?w s (int (length ?w)) = Some (Inr t)" by blast
      with s Some bc col show ?thesis by (simp add: parse_def result_def)
    qed
    then show ?thesis unfolding if_P [OF yes] .
  qed
  with bc len show ?thesis by blast
qed

text \<open>
  C2, for rules in whose bodies the reserved symbol of the start rule does not occur: when
  \<^verbatim>\<open>parse\<close> accepts and returns a tree, the leaves of the tree that carry a terminal, from
  left to right, are the tokens of the sentence.  The other leaves are the nodes of rules
  with an empty body, which stand for no token.
\<close>

theorem leaves_are_tokens:
  assumes "gamma_free (rules p)"
    and "parse U W depth p sentence = Some (Inr ((True, Some t), p'))"
  shows "terminal_leaves U t = tokens W sentence"
proof -
  let ?w = "tokens W sentence"
  from build_chart_total [of U "rules p" ?w] obtain ch where
    bc: "build_chart U (rules p) ?w = Some (Inr ch)" and I: "inv U (rules p) ?w ch" by blast
  note col = inv_last_column [OF I]
  from assms(2) bc have res: "result U depth ch ?w = Some (Inr (True, Some t))"
    by (auto simp: parse_def split: option.splits sum.splits)
  then obtain s where s: "find s_state (ch ! length ?w) = Some s"
    and t: "build_tree U depth ch ?w s (int (length ?w)) = Some (Inr t)"
    using col by (auto simp: result_def split: option.splits sum.splits)
  let ?d = "Suc (max depth (chart_size ch))"
  have d: "chart_size ch < ?d" "depth \<le> ?d" by simp_all
  from s_state_tree [OF I assms(1) s d(1), of "int (length ?w)"] obtain t' where
    t': "build_tree U ?d ch ?w s (int (length ?w)) = Some (Inr t')"
    "terminal_leaves U t' = ?w" by blast
  from build_tree_mono_le [OF d(2) t] t'(1) have "t' = t" by (simp del: build_tree.simps)
  with t'(2) show ?thesis by simp
qed

theorem parse_accepts_witness:
  "gamma_free (rules \<lparr>rules = [Rule [83] [[97]]], chart = []\<rparr>)
   \<and> (\<exists>ch. build_chart (\<lambda>_. False) (rules \<lparr>rules = [Rule [83] [[97]]], chart = []\<rparr>)
              (tokens (\<lambda>_. False) [97]) = Some (Inr ch)
         \<and> length ch = length (tokens (\<lambda>_. False) [97]) + 1)
   \<and> parse (\<lambda>_. False) (\<lambda>_. False) (Suc (Suc (Suc (Suc (Suc 0)))))
        \<lparr>rules = [Rule [83] [[97]]], chart = []\<rparr> [97]
       = Some (Inr ((True, Some (ParseTree [83] [ParseTree [97] []])),
           \<lparr>rules = [Rule [83] [[97]]],
              chart = [[State start_rule 0 0 [], State (Rule [83] [[97]]) 0 0 []],
                       [State (Rule [83] [[97]]) 1 0 [(0, 1)], State start_rule 1 0 [(0, 1)]]]\<rparr>))"
proof -
  let ?p = "\<lparr>rules = [Rule [83] [[97]]], chart = []\<rparr>"
  have gf: "gamma_free (rules ?p)" by (simp add: gamma_free_def gamma_def)
  from parse_accepts [OF gf, of "\<lambda>_. False" "\<lambda>_. False" "[97]"]
  have "\<exists>ch. build_chart (\<lambda>_. False) (rules ?p) (tokens (\<lambda>_. False) [97]) = Some (Inr ch)
         \<and> length ch = length (tokens (\<lambda>_. False) [97]) + 1" by blast
  moreover have "parse (\<lambda>_. False) (\<lambda>_. False) (Suc (Suc (Suc (Suc (Suc 0))))) ?p [97]
       = Some (Inr ((True, Some (ParseTree [83] [ParseTree [97] []])),
           \<lparr>rules = [Rule [83] [[97]]],
              chart = [[State start_rule 0 0 [], State (Rule [83] [[97]]) 0 0 []],
                       [State (Rule [83] [[97]]) 1 0 [(0, 1)], State start_rule 1 0 [(0, 1)]]]\<rparr>))"
    by (simp add: run_simps)
  ultimately show ?thesis using gf by blast
qed

text \<open>
  With the rules \<open>S \<rightarrow> \<epsilon> | \<gamma>\<close> and the empty sentence the last column holds the
  complete state of the start rule, and \<^verbatim>\<open>parse\<close> raises an index error: completing the
  start rule advances the state that waits for the terminal \<open>\<gamma>\<close>, and the tree builder then
  reads a token that does not exist.
\<close>

theorem parse_accepts_counterexample:
  "build_chart (\<lambda>_. False) [Rule [83] [], Rule [83] [[947]]] (tokens (\<lambda>_. False) [])
     = Some (Inr [[State start_rule 0 0 [],
                   State (Rule [83] []) 0 0 [],
                   State start_rule 1 0 [(0, 0)],
                   State (Rule [83] [[947]]) 0 0 [],
                   State (Rule [83] [[947]]) 1 0 [(0, 0)]]])
   \<and> length (tokens (\<lambda>_. False) []) = 0
   \<and> State start_rule 1 0 [(0, 0)]
       \<in> set ([[State start_rule 0 0 [],
                 State (Rule [83] []) 0 0 [],
                 State start_rule 1 0 [(0, 0)],
                 State (Rule [83] [[947]]) 0 0 [],
                 State (Rule [83] [[947]]) 1 0 [(0, 0)]]] ! 0)
   \<and> rule (State start_rule 1 0 [(0, 0)]) = start_rule
   \<and> is_complete (State start_rule 1 0 [(0, 0)])
   \<and> start (State start_rule 1 0 [(0, 0)]) = 0
   \<and> parse (\<lambda>_. False) (\<lambda>_. False) (Suc (Suc (Suc (Suc (Suc (Suc 0))))))
        \<lparr>rules = [Rule [83] [], Rule [83] [[947]]], chart = []\<rparr> []
       = Some (Inl IndexError)"
  by (simp add: run_simps)

theorem leaves_are_tokens_witness:
  "gamma_free (rules \<lparr>rules = [Rule [83] [[65], [120]], Rule [65] []], chart = []\<rparr>)
   \<and> parse (\<lambda>_. False) (\<lambda>_. False) (Suc (Suc 0))
        \<lparr>rules = [Rule [83] [[65], [120]], Rule [65] []], chart = []\<rparr> [120]
       = Some (Inr ((True, Some (ParseTree [83] [ParseTree [65] [], ParseTree [120] []])),
          \<lparr>rules = [Rule [83] [[65], [120]], Rule [65] []],
             chart =
               [[State start_rule 0 0 [],
                 State (Rule [83] [[65], [120]]) 0 0 [],
                 State (Rule [65] []) 0 0 [],
                 State (Rule [83] [[65], [120]]) 1 0 [(0, 0)]],
                [State (Rule [83] [[65], [120]]) 2 0 [(0, 0), (0, 1)],
                 State start_rule 1 0 [(0, 1)]]]\<rparr>))
   \<and> terminal_leaves (\<lambda>_. False) (ParseTree [83] [ParseTree [65] [], ParseTree [120] []])
       = tokens (\<lambda>_. False) [120]
   \<and> tokens (\<lambda>_. False) [120] = [[120]]"
proof -
  let ?p = "\<lparr>rules = [Rule [83] [[65], [120]], Rule [65] []], chart = []\<rparr>"
  let ?t = "ParseTree [83] [ParseTree [65] [], ParseTree [120] []]"
  let ?p' = "\<lparr>rules = [Rule [83] [[65], [120]], Rule [65] []],
             chart =
               [[State start_rule 0 0 [],
                 State (Rule [83] [[65], [120]]) 0 0 [],
                 State (Rule [65] []) 0 0 [],
                 State (Rule [83] [[65], [120]]) 1 0 [(0, 0)]],
                [State (Rule [83] [[65], [120]]) 2 0 [(0, 0), (0, 1)],
                 State start_rule 1 0 [(0, 1)]]]\<rparr>"
  have gf: "gamma_free (rules ?p)" by (simp add: gamma_free_def gamma_def)
  have run: "parse (\<lambda>_. False) (\<lambda>_. False) (Suc (Suc 0)) ?p [120] = Some (Inr ((True, Some ?t), ?p'))"
    by (simp add: run_simps)
  have tk: "tokens (\<lambda>_. False) [120] = [[120]]" by (simp add: run_simps)
  from leaves_are_tokens [OF gf run] gf run tk show ?thesis by simp
qed

text \<open>
  With the rules \<open>S \<rightarrow> a a | \<gamma> b\<close> the sentence \<open>a a b\<close> is accepted with the tree
  \<open>S(a, b)\<close>: the completed start rule over the first two tokens is taken for the terminal
  \<open>\<gamma>\<close>.
\<close>

theorem leaves_are_tokens_counterexample:
  "map_option (map_sum id fst)
     (parse (\<lambda>_. False) (\<lambda>_. False) (Suc (Suc 0))
        \<lparr>rules = [Rule [83] [[97], [97]], Rule [83] [gamma, [98]]], chart = []\<rparr>
        [97, 32, 97, 32, 98])
     = Some (Inr (True, Some (ParseTree [83] [ParseTree [97] [], ParseTree [98] []])))
   \<and> tokens (\<lambda>_. False) [97, 32, 97, 32, 98] = [[97], [97], [98]]
   \<and> leaves (ParseTree [83] [ParseTree [97] [], ParseTree [98] []]) = [[97], [98]]
   \<and> terminal_leaves (\<lambda>_. False) (ParseTree [83] [ParseTree [97] [], ParseTree [98] []])
       = [[97], [98]]"
  by (simp add: run_simps terminal_leaves_def)

end
